theory Spec2Isabelle
  imports Main "HOL-Library.Monad_Syntax"
begin

section \<open>Constants and the board\<close>

text \<open>
  The module constants of \<^verbatim>\<open>main.py\<close>. A cell of the board holds \<open>WHITE\<close>, \<open>BLACK\<close> or
  \<open>NOBODY\<close>; \<open>TIE\<close> is a fourth outcome code of \<open>find_winner\<close>.
\<close>

abbreviation (input) NUM_COLS :: int where "NUM_COLS \<equiv> 8"

abbreviation (input) WHITE :: int where "WHITE \<equiv> 1"

abbreviation (input) NOBODY :: int where "NOBODY \<equiv> 0"

abbreviation (input) BLACK :: int where "BLACK \<equiv> - 1"

abbreviation (input) TIE :: int where "TIE \<equiv> 2"

abbreviation (input) WIN_VAL :: int where "WIN_VAL \<equiv> 100"

abbreviation (input) DEMO_SEARCH_DEPTH :: int where "DEMO_SEARCH_DEPTH \<equiv> 5"

text \<open>\<^verbatim>\<open>sys.maxsize\<close> of a 64-bit CPython.\<close>

abbreviation (input) sys_maxsize :: int where "sys_maxsize \<equiv> 9223372036854775807"

definition DIRECTIONS :: "(int \<times> int) list" where
  "DIRECTIONS = [(-1, -1), (-1, 0), (-1, 1), (0, -1), (0, 1), (1, -1), (1, 0), (1, 1)]"

text \<open>
  A board is the content of the \<open>NUM_COLS \<times> NUM_COLS\<close> numpy array: the number stored at
  each (row, column). The array holds floats, but only the values \<open>-1\<close>, \<open>0\<close> and \<open>1\<close> are
  ever stored, so a cell is an \<open>int\<close>. Only the indices \<open>0 \<le> row, col < NUM_COLS\<close> are
  cells of the array; the model never reads or writes the function anywhere else.
\<close>

type_synonym board = "int \<Rightarrow> int \<Rightarrow> int"

datatype error = IndexError

text \<open>
  Indexing a numpy axis of length \<open>NUM_COLS\<close> with an unchecked Python integer: a negative
  index counts from the end, anything outside \<open>-NUM_COLS \<le> i < NUM_COLS\<close> raises.
\<close>

definition np_index :: "int \<Rightarrow> error + int" where
  "np_index i =
     (if 0 \<le> i \<and> i < NUM_COLS then Inr i
      else if - NUM_COLS \<le> i \<and> i < 0 then Inr (i + NUM_COLS)
      else Inl IndexError)"

text \<open>\<^verbatim>\<open>board[i][j]\<close> and \<^verbatim>\<open>board[i][j] = v\<close> where the source checks no bounds.\<close>

definition getitem :: "board \<Rightarrow> int \<Rightarrow> int \<Rightarrow> error + int" where
  "getitem board i j =
     (case np_index i of
        Inl e \<Rightarrow> Inl e
      | Inr r \<Rightarrow> (case np_index j of Inl e \<Rightarrow> Inl e | Inr c \<Rightarrow> Inr (board r c)))"

definition setitem :: "board \<Rightarrow> int \<Rightarrow> int \<Rightarrow> int \<Rightarrow> error + board" where
  "setitem board i j v =
     (case np_index i of
        Inl e \<Rightarrow> Inl e
      | Inr r \<Rightarrow> (case np_index j of Inl e \<Rightarrow> Inl e | Inr c \<Rightarrow> Inr (board(r := (board r)(c := v)))))"

text \<open>The cells in the order of the nested \<^verbatim>\<open>for row ... for col ...\<close> loops (row-major).\<close>

definition cells :: "(int \<times> int) list" where
  "cells = List.product [0..NUM_COLS - 1] [0..NUM_COLS - 1]"

text \<open>\<^verbatim>\<open>np.count_nonzero(board == v)\<close>: the number of cells that hold \<open>v\<close>.\<close>

definition count_nonzero_eq :: "board \<Rightarrow> int \<Rightarrow> int" where
  "count_nonzero_eq board v = int (length (filter (\<lambda>(row, col). board row col = v) cells))"

definition starting_board :: board where
  "starting_board =
     (let board = (\<lambda>row col. 0);
          board = board(3 := (board 3)(3 := WHITE));
          board = board(3 := (board 3)(4 := BLACK));
          board = board(4 := (board 4)(3 := BLACK));
          board = board(4 := (board 4)(4 := WHITE))
      in board)"

section \<open>Move rules\<close>

text \<open>
  The \<^verbatim>\<open>while\<close> loop of \<open>captures_in_dir\<close>. With both deltas \<open>0\<close> the source loop can run
  forever, so the loop is a partial function: \<open>None\<close> means it does not return.
\<close>

partial_function (option) scan_loop ::
  "board \<Rightarrow> int \<Rightarrow> int \<Rightarrow> int \<Rightarrow> int \<Rightarrow> int \<Rightarrow> bool option" where
  "scan_loop board friendly_color scan_row scan_col row_delta col_delta =
     (if 0 \<le> scan_row \<and> scan_row < NUM_COLS \<and> 0 \<le> scan_col \<and> scan_col < NUM_COLS then
        if board scan_row scan_col = NOBODY then Some False
        else if board scan_row scan_col = friendly_color then Some True
        else scan_loop board friendly_color (scan_row + row_delta) (scan_col + col_delta)
               row_delta col_delta
      else Some False)"

declare scan_loop.simps [code]

definition captures_in_dir ::
  "board \<Rightarrow> int \<Rightarrow> int \<Rightarrow> int \<Rightarrow> int \<Rightarrow> bool \<Rightarrow> bool option" where
  "captures_in_dir board row row_delta col col_delta white_turn =
     (if row + row_delta < 0 \<or> row + row_delta \<ge> NUM_COLS then Some False
      else if col + col_delta < 0 \<or> col + col_delta \<ge> NUM_COLS then Some False
      else
        let enemy_color = (if white_turn then BLACK else WHITE) in
        if board (row + row_delta) (col + col_delta) \<noteq> enemy_color then Some False
        else
          let friendly_color = (if white_turn then WHITE else BLACK);
              scan_row = row + 2 * row_delta;
              scan_col = col + 2 * col_delta
          in scan_loop board friendly_color scan_row scan_col row_delta col_delta)"

text \<open>\<open>can_capture\<close>: the loop over the directions, returning at the first capture.\<close>

fun can_capture_loop ::
  "board \<Rightarrow> int \<Rightarrow> int \<Rightarrow> bool \<Rightarrow> (int \<times> int) list \<Rightarrow> bool option" where
  "can_capture_loop board row col white_turn [] = Some False"
| "can_capture_loop board row col white_turn ((r_delta, c_delta) # ds) =
     do {
       t \<leftarrow> captures_in_dir board row r_delta col c_delta white_turn;
       if t then Some True else can_capture_loop board row col white_turn ds
     }"

definition can_capture :: "board \<Rightarrow> int \<Rightarrow> int \<Rightarrow> bool \<Rightarrow> bool option" where
  "can_capture board row col white_turn = can_capture_loop board row col white_turn DIRECTIONS"

text \<open>\<open>generate_legal_moves\<close>: the two nested loops, appending to \<open>legal_moves\<close>.\<close>

fun legal_moves_loop ::
  "board \<Rightarrow> bool \<Rightarrow> (int \<times> int) list \<Rightarrow> (int \<times> int) list \<Rightarrow> (int \<times> int) list option" where
  "legal_moves_loop board white_turn [] legal_moves = Some legal_moves"
| "legal_moves_loop board white_turn ((row, col) # rest) legal_moves =
     (if board row col \<noteq> NOBODY then legal_moves_loop board white_turn rest legal_moves
      else do {
        t \<leftarrow> can_capture board row col white_turn;
        if t then legal_moves_loop board white_turn rest (legal_moves @ [(row, col)])
        else legal_moves_loop board white_turn rest legal_moves
      })"

definition generate_legal_moves :: "board \<Rightarrow> bool \<Rightarrow> (int \<times> int) list option" where
  "generate_legal_moves board white_turn = legal_moves_loop board white_turn cells []"

text \<open>
  The flipping loop of \<open>capture\<close>: it reads and writes the array with no bounds check of
  its own, so a read may raise or wrap around.
\<close>

partial_function (option) flip_loop ::
  "board \<Rightarrow> int \<Rightarrow> int \<Rightarrow> int \<Rightarrow> int \<Rightarrow> int \<Rightarrow> (error + board) option" where
  "flip_loop board flip_row flip_col row_delta col_delta enemy_color =
     (case getitem board flip_row flip_col of
        Inl e \<Rightarrow> Some (Inl e)
      | Inr v \<Rightarrow>
          if v = enemy_color then
            (case setitem board flip_row flip_col (- enemy_color) of
               Inl e \<Rightarrow> Some (Inl e)
             | Inr board' \<Rightarrow>
                 flip_loop board' (flip_row + row_delta) (flip_col + col_delta)
                   row_delta col_delta enemy_color)
          else Some (Inr board))"

declare flip_loop.simps [code]

fun capture_loop ::
  "board \<Rightarrow> int \<Rightarrow> int \<Rightarrow> bool \<Rightarrow> (int \<times> int) list \<Rightarrow> (error + board) option" where
  "capture_loop board row col white_turn [] = Some (Inr board)"
| "capture_loop board row col white_turn ((row_delta, col_delta) # ds) =
     do {
       t \<leftarrow> captures_in_dir board row row_delta col col_delta white_turn;
       if t then
         do {
           res \<leftarrow> flip_loop board (row + row_delta) (col + col_delta) row_delta col_delta
                    (if white_turn then BLACK else WHITE);
           case res of
             Inl e \<Rightarrow> Some (Inl e)
           | Inr board' \<Rightarrow> capture_loop board' row col white_turn ds
         }
       else capture_loop board row col white_turn ds
     }"

definition capture :: "board \<Rightarrow> int \<Rightarrow> int \<Rightarrow> bool \<Rightarrow> (error + board) option" where
  "capture board row col white_turn = capture_loop board row col white_turn DIRECTIONS"

text \<open>
  \<open>play_move\<close> works on a deep copy of its argument; boards are values here, so the copy
  is the argument itself and the caller's board is the unchanged \<open>board\<close>.
\<close>

definition play_move :: "board \<Rightarrow> int \<times> int \<Rightarrow> bool \<Rightarrow> (error + board) option" where
  "play_move board move white_turn =
     (case setitem board (fst move) (snd move) (if white_turn then WHITE else BLACK) of
        Inl e \<Rightarrow> Some (Inl e)
      | Inr new_board \<Rightarrow> capture new_board (fst move) (snd move) white_turn)"

section \<open>Winner, evaluation, end of the game\<close>

definition find_winner :: "board \<Rightarrow> int" where
  "find_winner board =
     (let white_count = count_nonzero_eq board WHITE;
          black_count = count_nonzero_eq board BLACK
      in if white_count > black_count then WHITE
         else if white_count < black_count then BLACK
         else TIE)"

definition evaluation_function :: "board \<Rightarrow> int" where
  "evaluation_function board = count_nonzero_eq board WHITE - count_nonzero_eq board BLACK"

definition check_game_over :: "board \<Rightarrow> int option" where
  "check_game_over board =
     do {
       white_legal_moves \<leftarrow> generate_legal_moves board True;
       if white_legal_moves \<noteq> [] then Some NOBODY
       else do {
         black_legal_moves \<leftarrow> generate_legal_moves board False;
         if black_legal_moves \<noteq> [] then Some NOBODY
         else Some (find_winner board)
       }
     }"

section \<open>Search\<close>

text \<open>
  \<open>alpha\<close> and \<open>beta\<close> are "int or float": the callers start them at
  \<^verbatim>\<open>float("-inf")\<close> and \<^verbatim>\<open>float("inf")\<close>, the search replaces them by scores, which
  are integers.
\<close>

datatype ext = MInf | Fin int | PInf

instantiation ext :: linorder
begin

fun less_eq_ext :: "ext \<Rightarrow> ext \<Rightarrow> bool" where
  "less_eq_ext MInf y = True"
| "less_eq_ext (Fin x) MInf = False"
| "less_eq_ext (Fin x) (Fin y) = (x \<le> y)"
| "less_eq_ext (Fin x) PInf = True"
| "less_eq_ext PInf PInf = True"
| "less_eq_ext PInf y = False"

definition less_ext :: "ext \<Rightarrow> ext \<Rightarrow> bool" where
  "less_ext x y = (x \<le> y \<and> \<not> y \<le> x)"

instance
proof
  fix x y z :: ext
  show "(x < y) = (x \<le> y \<and> \<not> y \<le> x)" by (simp add: less_ext_def)
  show "x \<le> x" by (cases x) auto
  show "x \<le> y \<Longrightarrow> y \<le> z \<Longrightarrow> x \<le> z" by (cases x; cases y; cases z) auto
  show "x \<le> y \<Longrightarrow> y \<le> x \<Longrightarrow> x = y" by (cases x; cases y) auto
  show "x \<le> y \<or> y \<le> x" by (cases x; cases y) auto
qed

end

text \<open>
  The three mutually recursive functions of the search, and the two \<^verbatim>\<open>for\<close> loops over the
  legal moves, as one recursive function of the call that is made. The search recurses
  on a forced pass without consuming depth and \<open>search_depth\<close> may be any integer, so it
  is a partial function: \<open>None\<close> means the call does not return, \<open>Some (Inl e)\<close> that it
  raises \<open>e\<close>, \<open>Some (Inr v)\<close> that it returns \<open>v\<close>.
\<close>

datatype call =
    Minimax_value board bool int ext ext
  | Find_max_score int board bool int ext ext
  | Max_loop int board "(int \<times> int) list" int ext ext
  | Find_min_score int board bool int ext ext
  | Min_loop int board "(int \<times> int) list" int ext ext

partial_function (option) search :: "call \<Rightarrow> (error + int) option" where
  "search c =
     (case c of
        Minimax_value board white_turn search_depth alpha beta \<Rightarrow>
          if search_depth = 0 then
            Some (Inr (count_nonzero_eq board WHITE - count_nonzero_eq board BLACK))
          else
            (case check_game_over board of
               None \<Rightarrow> None
             | Some game_condition \<Rightarrow>
                 if game_condition = TIE then Some (Inr 0)
                 else if game_condition = WHITE then Some (Inr WIN_VAL)
                 else if game_condition = BLACK then Some (Inr (WIN_VAL * - 1))
                 else if white_turn then
                   search (Find_max_score (sys_maxsize * - 1) board white_turn search_depth
                             alpha beta)
                 else
                   search (Find_min_score sys_maxsize board white_turn search_depth
                             alpha beta))
      | Find_max_score maxScore board white_turn search_depth alpha beta \<Rightarrow>
          (case generate_legal_moves board True of
             None \<Rightarrow> None
           | Some legal_moves \<Rightarrow>
               if length legal_moves = 0 then
                 search (Minimax_value board False search_depth alpha beta)
               else search (Max_loop maxScore board legal_moves search_depth alpha beta))
      | Max_loop maxScore board legal_moves search_depth alpha beta \<Rightarrow>
          (case legal_moves of
             [] \<Rightarrow> Some (Inr maxScore)
           | m # rest \<Rightarrow>
               (case play_move board m True of
                  None \<Rightarrow> None
                | Some (Inl e) \<Rightarrow> Some (Inl e)
                | Some (Inr updated_board) \<Rightarrow>
                    Option.bind
                      (search (Minimax_value updated_board False (search_depth - 1) alpha beta))
                      (\<lambda>res. case res of
                         Inl e \<Rightarrow> Some (Inl e)
                       | Inr score \<Rightarrow>
                           let maxScore = (if score > maxScore then score else maxScore);
                               alpha = (if Fin score > alpha then Fin score else alpha)
                           in if beta \<le> alpha then Some (Inr maxScore)
                              else search (Max_loop maxScore board rest search_depth
                                             alpha beta))))
      | Find_min_score minScore board white_turn search_depth alpha beta \<Rightarrow>
          (case generate_legal_moves board False of
             None \<Rightarrow> None
           | Some legal_moves \<Rightarrow>
               if length legal_moves = 0 then
                 search (Minimax_value board True search_depth alpha beta)
               else search (Min_loop minScore board legal_moves search_depth alpha beta))
      | Min_loop minScore board legal_moves search_depth alpha beta \<Rightarrow>
          (case legal_moves of
             [] \<Rightarrow> Some (Inr minScore)
           | m # rest \<Rightarrow>
               (case play_move board m False of
                  None \<Rightarrow> None
                | Some (Inl e) \<Rightarrow> Some (Inl e)
                | Some (Inr new_board) \<Rightarrow>
                    Option.bind
                      (search (Minimax_value new_board True (search_depth - 1) alpha beta))
                      (\<lambda>res. case res of
                         Inl e \<Rightarrow> Some (Inl e)
                       | Inr score \<Rightarrow>
                           let minScore = min minScore score;
                               beta = min beta (Fin score)
                           in if beta \<le> alpha then Some (Inr minScore)
                              else search (Min_loop minScore board rest search_depth
                                             alpha beta)))))"

declare search.simps [code]

definition minimax_value :: "board \<Rightarrow> bool \<Rightarrow> int \<Rightarrow> ext \<Rightarrow> ext \<Rightarrow> (error + int) option" where
  "minimax_value board white_turn search_depth alpha beta =
     search (Minimax_value board white_turn search_depth alpha beta)"

definition find_max_score ::
  "int \<Rightarrow> board \<Rightarrow> bool \<Rightarrow> int \<Rightarrow> ext \<Rightarrow> ext \<Rightarrow> (error + int) option" where
  "find_max_score maxScore board white_turn search_depth alpha beta =
     search (Find_max_score maxScore board white_turn search_depth alpha beta)"

definition find_min_score ::
  "int \<Rightarrow> board \<Rightarrow> bool \<Rightarrow> int \<Rightarrow> ext \<Rightarrow> ext \<Rightarrow> (error + int) option" where
  "find_min_score minScore board white_turn search_depth alpha beta =
     search (Find_min_score minScore board white_turn search_depth alpha beta)"

text \<open>
  The move selection of \<open>play\<close> (the AI plays white): the loop over the legal moves, with
  \<open>best_val\<close> starting at \<^verbatim>\<open>float("-inf")\<close> and \<open>best_move\<close> at \<^verbatim>\<open>None\<close>.
\<close>

fun best_move_loop ::
  "board \<Rightarrow> (int \<times> int) list \<Rightarrow> ext \<Rightarrow> (int \<times> int) option \<Rightarrow> (error + (int \<times> int) option) option"
  where
  "best_move_loop board [] best_val best_move = Some (Inr best_move)"
| "best_move_loop board (move # rest) best_val best_move =
     do {
       res \<leftarrow> play_move board move True;
       case res of
         Inl e \<Rightarrow> Some (Inl e)
       | Inr new_board \<Rightarrow>
           do {
             res \<leftarrow> minimax_value new_board True DEMO_SEARCH_DEPTH MInf PInf;
             case res of
               Inl e \<Rightarrow> Some (Inl e)
             | Inr move_val \<Rightarrow>
                 if Fin move_val > best_val then best_move_loop board rest (Fin move_val) (Some move)
                 else best_move_loop board rest best_val best_move
           }
     }"

definition play_best_move :: "board \<Rightarrow> (error + (int \<times> int) option) option" where
  "play_best_move board =
     do {
       legal_moves \<leftarrow> generate_legal_moves board True;
       best_move_loop board legal_moves MInf None
     }"

section \<open>Closed forms of the loops\<close>

text \<open>
  In the eight directions of \<open>DIRECTIONS\<close> every scan leaves the board after at most
  eight steps, so the loops of the move rules return, and what they return is given by
  total functions. These functions are used to state and prove the properties of the
  source functions above.
\<close>

definition on_board :: "int \<Rightarrow> int \<Rightarrow> bool" where
  "on_board r c \<longleftrightarrow> 0 \<le> r \<and> r < NUM_COLS \<and> 0 \<le> c \<and> c < NUM_COLS"

fun scan_steps :: "nat \<Rightarrow> board \<Rightarrow> int \<Rightarrow> int \<Rightarrow> int \<Rightarrow> int \<Rightarrow> int \<Rightarrow> bool" where
  "scan_steps 0 b f r c dr dc = False"
| "scan_steps (Suc n) b f r c dr dc =
     (if on_board r c then
        if b r c = NOBODY then False
        else if b r c = f then True
        else scan_steps n b f (r + dr) (c + dc) dr dc
      else False)"

definition captures_dir :: "board \<Rightarrow> int \<Rightarrow> int \<Rightarrow> int \<times> int \<Rightarrow> bool \<Rightarrow> bool" where
  "captures_dir b row col d white_turn =
     (case d of (dr, dc) \<Rightarrow>
        on_board (row + dr) (col + dc) \<and>
        b (row + dr) (col + dc) = (if white_turn then BLACK else WHITE) \<and>
        scan_steps 8 b (if white_turn then WHITE else BLACK) (row + 2 * dr) (col + 2 * dc) dr dc)"

definition captures_any :: "board \<Rightarrow> int \<Rightarrow> int \<Rightarrow> bool \<Rightarrow> bool" where
  "captures_any b row col white_turn = (\<exists>d\<in>set DIRECTIONS. captures_dir b row col d white_turn)"

definition legal_moves :: "board \<Rightarrow> bool \<Rightarrow> (int \<times> int) list" where
  "legal_moves b white_turn =
     filter (\<lambda>(row, col). b row col = NOBODY \<and> captures_any b row col white_turn) cells"

definition outcome :: "board \<Rightarrow> int" where
  "outcome b =
     (if legal_moves b True \<noteq> [] then NOBODY
      else if legal_moves b False \<noteq> [] then NOBODY
      else find_winner b)"

definition hit :: "nat \<Rightarrow> board \<Rightarrow> int \<Rightarrow> int \<Rightarrow> int \<Rightarrow> int \<Rightarrow> int \<Rightarrow> bool" where
  "hit n b f r c dr dc \<longleftrightarrow>
     (\<exists>k<n. on_board (r + int k * dr) (c + int k * dc) \<and> b (r + int k * dr) (c + int k * dc) = f \<and>
        (\<forall>j<k. on_board (r + int j * dr) (c + int j * dc) \<and>
                b (r + int j * dr) (c + int j * dc) \<noteq> NOBODY \<and>
                b (r + int j * dr) (c + int j * dc) \<noteq> f))"

fun flip_steps :: "nat \<Rightarrow> board \<Rightarrow> int \<Rightarrow> int \<Rightarrow> int \<Rightarrow> int \<Rightarrow> int \<Rightarrow> board" where
  "flip_steps 0 b r c dr dc e = b"
| "flip_steps (Suc n) b r c dr dc e =
     (if on_board r c \<and> b r c = e
      then flip_steps n (b(r := (b r)(c := - e))) (r + dr) (c + dc) dr dc e
      else b)"

definition capture_step :: "board \<Rightarrow> int \<Rightarrow> int \<Rightarrow> bool \<Rightarrow> int \<times> int \<Rightarrow> board" where
  "capture_step b row col white_turn d =
     (if captures_dir b row col d white_turn
      then flip_steps 8 b (row + fst d) (col + snd d) (fst d) (snd d) (if white_turn then BLACK else WHITE)
      else b)"

fun capture_dirs :: "board \<Rightarrow> int \<Rightarrow> int \<Rightarrow> bool \<Rightarrow> (int \<times> int) list \<Rightarrow> board" where
  "capture_dirs b row col white_turn [] = b"
| "capture_dirs b row col white_turn (d # ds) =
     capture_dirs (capture_step b row col white_turn d) row col white_turn ds"

definition moved :: "board \<Rightarrow> int \<times> int \<Rightarrow> bool \<Rightarrow> board" where
  "moved b move white_turn =
     capture_dirs (b(fst move := (b (fst move))(snd move := (if white_turn then WHITE else BLACK))))
       (fst move) (snd move) white_turn DIRECTIONS"

text \<open>The cells a flipping loop changes: the run of \<open>e\<close> that starts at \<open>(r, c)\<close>.\<close>

definition run_to :: "nat \<Rightarrow> board \<Rightarrow> int \<Rightarrow> int \<Rightarrow> int \<Rightarrow> int \<Rightarrow> int \<Rightarrow> int \<Rightarrow> int \<Rightarrow> bool" where
  "run_to n b r c dr dc e x y \<longleftrightarrow>
     (\<exists>j<n. x = r + int j * dr \<and> y = c + int j * dc \<and>
        (\<forall>i\<le>j. on_board (r + int i * dr) (c + int i * dc) \<and> b (r + int i * dr) (c + int i * dc) = e))"

section \<open>The specification's predicates\<close>

text \<open>The invariant of the data model: every cell holds one of the three cell values.\<close>

definition valid_board :: "board \<Rightarrow> bool" where
  "valid_board board \<longleftrightarrow>
     (\<forall>(row, col)\<in>set cells. board row col = WHITE \<or> board row col = BLACK \<or> board row col = NOBODY)"

text \<open>
  The wording of the specification for the capture test: stepping on from the adjacent
  cell, a cell of the mover's colour is reached before any empty cell and before the
  edge of the board. Cell \<open>k\<close> of the ray is \<open>(row + k * dr, col + k * dc)\<close>; the adjacent
  cell is cell 1, and no ray has more than 8 cells on the board.
\<close>

definition reaches_own :: "board \<Rightarrow> int \<Rightarrow> int \<Rightarrow> int \<Rightarrow> int \<Rightarrow> bool \<Rightarrow> bool" where
  "reaches_own board row col dr dc white_turn \<longleftrightarrow>
     (\<exists>k\<in>set [2..8].
        on_board (row + k * dr) (col + k * dc) \<and>
        board (row + k * dr) (col + k * dc) = (if white_turn then WHITE else BLACK) \<and>
        (\<forall>j\<in>set [2..8]. j < k \<longrightarrow>
           on_board (row + j * dr) (col + j * dc) \<and> board (row + j * dr) (col + j * dc) \<noteq> NOBODY))"

text \<open>
  The wording of the specification for the cells a move flips in one direction: cell
  \<open>(x, y)\<close> lies between the target and the first cell of the mover's colour, cell \<open>k\<close> of
  the ray, and every cell of the ray before cell \<open>k\<close> holds the opponent's colour.
\<close>

definition enclosed :: "board \<Rightarrow> int \<Rightarrow> int \<Rightarrow> int \<Rightarrow> int \<Rightarrow> bool \<Rightarrow> int \<Rightarrow> int \<Rightarrow> bool" where
  "enclosed board row col dr dc white_turn x y \<longleftrightarrow>
     (\<exists>k\<in>set [2..8].
        on_board (row + k * dr) (col + k * dc) \<and>
        board (row + k * dr) (col + k * dc) = (if white_turn then WHITE else BLACK) \<and>
        (\<forall>i\<in>set [1..8]. i < k \<longrightarrow>
           board (row + i * dr) (col + i * dc) = (if white_turn then BLACK else WHITE)) \<and>
        (\<exists>j\<in>set [1..8]. j < k \<and> x = row + j * dr \<and> y = col + j * dc))"

text \<open>
  The root selection in the words of the specification: every legal move of Light is
  valued by applying it and "recursing into the opponent's turn", that is by the value of
  the board after the move with Dark to move, with a fresh open window, and a move
  replaces the incumbent only if its value is strictly greater. This is \<open>best_move_loop\<close>
  with \<open>False\<close> in place of \<open>True\<close> for \<open>white_turn\<close>; the depth is the one the source
  passes, \<open>DEMO_SEARCH_DEPTH\<close>.
\<close>

fun claimed_best_move_loop ::
  "board \<Rightarrow> (int \<times> int) list \<Rightarrow> ext \<Rightarrow> (int \<times> int) option \<Rightarrow> (error + (int \<times> int) option) option"
  where
  "claimed_best_move_loop board [] best_val best_move = Some (Inr best_move)"
| "claimed_best_move_loop board (move # rest) best_val best_move =
     do {
       res \<leftarrow> play_move board move True;
       case res of
         Inl e \<Rightarrow> Some (Inl e)
       | Inr new_board \<Rightarrow>
           do {
             res \<leftarrow> minimax_value new_board False DEMO_SEARCH_DEPTH MInf PInf;
             case res of
               Inl e \<Rightarrow> Some (Inl e)
             | Inr move_val \<Rightarrow>
                 if Fin move_val > best_val
                 then claimed_best_move_loop board rest (Fin move_val) (Some move)
                 else claimed_best_move_loop board rest best_val best_move
           }
     }"

definition claimed_best_move :: "board \<Rightarrow> (error + (int \<times> int) option) option" where
  "claimed_best_move board =
     do {
       legal_moves \<leftarrow> generate_legal_moves board True;
       claimed_best_move_loop board legal_moves MInf None
     }"

section \<open>Exhaustive search\<close>

text \<open>
  The exhaustive depth-limited minimax of the specification, with no window and no
  pruning: the static evaluation at depth 0, the fixed score of a finished game, the
  value of the opponent's turn at the same depth on a forced pass, and otherwise the
  maximum (Light) or minimum (Dark) of the values of all legal moves at depth - 1.
  The legal moves and the board after a move are taken from the closed forms
  \<open>legal_moves\<close> and \<open>moved\<close>, which are what \<open>generate_legal_moves\<close> and \<open>play_move\<close>
  return (lemmas \<open>generate_legal_moves_eq\<close> and \<open>play_move_eq\<close> below).
\<close>

function exhaustive_minimax :: "board \<Rightarrow> bool \<Rightarrow> nat \<Rightarrow> int" where
  "exhaustive_minimax b white_turn depth =
     (if depth = 0 then evaluation_function b
      else if legal_moves b True = [] \<and> legal_moves b False = [] then
        (if find_winner b = TIE then 0
         else if find_winner b = WHITE then WIN_VAL
         else - WIN_VAL)
      else if legal_moves b white_turn = [] then exhaustive_minimax b (\<not> white_turn) depth
      else if white_turn then
        Max (set (map (\<lambda>m. exhaustive_minimax (moved b m True) False (depth - 1))
                   (legal_moves b True)))
      else
        Min (set (map (\<lambda>m. exhaustive_minimax (moved b m False) True (depth - 1))
                   (legal_moves b False))))"
  by pat_completeness auto

termination
  by (relation "measures [\<lambda>(b, w, d). d, \<lambda>(b, w, d). if legal_moves b w = [] then 1 else 0]")
    (auto split: if_splits, (case_tac white_turn; simp)+)

declare exhaustive_minimax.simps [simp del]

section \<open>Soundness of a windowed search\<close>

text \<open>
  What a search with window \<open>(alpha, beta)\<close> that returns \<open>r\<close> says about the exact value
  \<open>v\<close>: a result below \<open>beta\<close> is an upper bound, a result above \<open>alpha\<close> a lower bound.
\<close>

definition sound :: "ext \<Rightarrow> ext \<Rightarrow> int \<Rightarrow> int \<Rightarrow> bool" where
  "sound alpha beta r v \<longleftrightarrow> (Fin r < beta \<longrightarrow> v \<le> r) \<and> (alpha < Fin r \<longrightarrow> r \<le> v)"

text \<open>Every call at depth \<open>n\<close> returns, within the score range, and soundly for its window.\<close>

definition node_ok :: "nat \<Rightarrow> bool" where
  "node_ok n \<longleftrightarrow>
     (\<forall>b w alpha beta. \<exists>r.
        search (Minimax_value b w (int n) alpha beta) = Some (Inr r) \<and>
        - WIN_VAL \<le> r \<and> r \<le> WIN_VAL \<and>
        (alpha < beta \<longrightarrow> sound alpha beta r (exhaustive_minimax b w n)))"

section \<open>Strategies that bound the value of a position\<close>

text \<open>
  A strategy of one side, as a tree. \<open>Pick m s\<close>: the side plays \<open>m\<close> and goes on with
  \<open>s\<close>. \<open>Each ss\<close>: the other side is to move, and \<open>ss\<close> holds one strategy for each of
  its legal moves, in the order of \<open>generate_legal_moves\<close>. \<open>Stop\<close>: the depth is used up
  or the game is over.
\<close>

datatype strategy = Stop | Pick "int \<times> int" strategy | Each "strategy list"

definition within :: "bool \<Rightarrow> int \<Rightarrow> int \<Rightarrow> bool" where
  "within upper v c = (if upper then v \<le> c else c \<le> v)"

text \<open>
  \<open>holds True c board white_turn depth s\<close> checks, with the functions of the source, that
  Dark by playing \<open>s\<close> keeps the score of \<open>board\<close>, searched to \<open>depth\<close> with \<open>white_turn\<close>
  to move, at or below \<open>c\<close> whatever Light plays; \<open>holds False c board white_turn depth s\<close>
  that Light by playing \<open>s\<close> keeps it at or above \<open>c\<close> whatever Dark plays. A move that is
  picked must be a legal move of the side to move, so no side passes in a strategy, and
  the game is over only at a \<open>Stop\<close>.
\<close>

fun holds :: "bool \<Rightarrow> int \<Rightarrow> board \<Rightarrow> bool \<Rightarrow> nat \<Rightarrow> strategy \<Rightarrow> bool"
  and holds_all :: "bool \<Rightarrow> int \<Rightarrow> board \<Rightarrow> bool \<Rightarrow> nat \<Rightarrow> (int \<times> int) list \<Rightarrow> strategy list \<Rightarrow> bool"
  where
  "holds upper c b w d Stop =
     (if d = 0 then within upper (evaluation_function b) c
      else (case check_game_over b of
              None \<Rightarrow> False
            | Some g \<Rightarrow>
                if g = TIE then within upper 0 c
                else if g = WHITE then within upper WIN_VAL c
                else if g = BLACK then within upper (- WIN_VAL) c
                else False))"
| "holds upper c b w d (Pick m s) =
     (if d = 0 \<or> w = upper \<or> \<not> on_board (fst m) (snd m) \<or> b (fst m) (snd m) \<noteq> NOBODY then False
      else if can_capture b (fst m) (snd m) w = Some True then
        (case play_move b m w of
           Some (Inr b') \<Rightarrow> holds upper c b' (\<not> w) (d - 1) s
         | _ \<Rightarrow> False)
      else False)"
| "holds upper c b w d (Each ss) =
     (if d = 0 \<or> w \<noteq> upper then False
      else (case generate_legal_moves b w of
              None \<Rightarrow> False
            | Some ms \<Rightarrow> if ms = [] then False else holds_all upper c b w d ms ss))"
| "holds_all upper c b w d [] [] = True"
| "holds_all upper c b w d (m # ms) (s # ss) =
     (case play_move b m w of
        Some (Inr b') \<Rightarrow>
          if holds upper c b' (\<not> w) (d - 1) s then holds_all upper c b w d ms ss else False
      | _ \<Rightarrow> False)"
| "holds_all upper c b w d [] (s # ss) = False"
| "holds_all upper c b w d (m # ms) [] = False"

section \<open>Example boards\<close>

text \<open>The board with no piece.\<close>

definition empty_board :: board where
  "empty_board = (\<lambda>row col. NOBODY)"

text \<open>Row 0 reads \<open>W B - B\<close> from column 0: a run with a gap.\<close>

definition gap_board :: board where
  "gap_board = (\<lambda>row col. if row = 0 \<and> col = 0 then WHITE
                            else if row = 0 \<and> (col = 1 \<or> col = 3) then BLACK else NOBODY)"

text \<open>Row 0 reads \<open>- B B W\<close> from column 0: a run of two Dark pieces closed by a Light piece.\<close>

definition run_board :: board where
  "run_board = (\<lambda>row col. if row = 0 \<and> (col = 1 \<or> col = 2) then BLACK
                            else if row = 0 \<and> col = 3 then WHITE else NOBODY)"

text \<open>Row 0 reads \<open>- - - - B W B -\<close>.\<close>

definition trap_board :: board where
  "trap_board = (\<lambda>row col. if row = 0 \<and> (col = 4 \<or> col = 6) then BLACK
                             else if row = 0 \<and> col = 5 then WHITE else NOBODY)"

text \<open>Row 0 reads \<open>B W\<close> from column 0: Light has no move, Dark has one.\<close>

definition pass_board :: board where
  "pass_board = (\<lambda>row col. if row = 0 \<and> col = 0 then BLACK
                             else if row = 0 \<and> col = 1 then WHITE else NOBODY)"

text \<open>A single piece, of colour \<open>v\<close>, in the corner (0,0).\<close>

definition lone_piece :: "int \<Rightarrow> board" where
  "lone_piece v = (\<lambda>row col. if row = 0 \<and> col = 0 then v else NOBODY)"

text \<open>
  Four boards of a game of \<open>play\<close>, which starts from \<open>starting_board\<close>: the board after
  Light's (2,4), then after Dark's answer (2,3), then after Light's (1,2), then after
  Dark's answer (1,3). On the last one rows 1 to 4 read \<open>- - W B\<close>, \<open>- - - B W\<close>,
  \<open>- - - B W\<close>, \<open>- - - B W\<close> from column 0, and Light is to move.
\<close>

definition opening_1 :: board where
  "opening_1 = moved starting_board (2, 4) True"

definition opening_2 :: board where
  "opening_2 = moved opening_1 (2, 3) False"

definition opening_3 :: board where
  "opening_3 = moved opening_2 (1, 2) True"

definition opening_4 :: board where
  "opening_4 = moved opening_3 (1, 3) False"

section \<open>Strategies on the boards after Light's third move\<close>

text \<open>
  On \<open>opening_4\<close> Light has the legal moves (0,2), (1,4), (2,2), (3,2), (4,2), (5,2). The
  strategies below are for the boards after these moves, with Dark to move and five plies
  to search.
\<close>

text \<open>Dark, on the board after (0,2): the value stays at or below -2.\<close>

definition dark_after_0_2 :: strategy where
  "dark_after_0_2 =
     Pick (2, 5)
       (Each
         [Pick (0, 3)
            (Each
              [Pick (1, 5) Stop, Pick (0, 1) Stop, Pick (0, 1) Stop, Pick (2, 1) Stop,
               Pick (0, 1) Stop, Pick (0, 1) Stop, Pick (0, 1) Stop, Pick (0, 1) Stop]),
          Pick (4, 5)
            (Each
              [Pick (0, 1) Stop, Pick (0, 3) Stop, Pick (1, 1) Stop, Pick (0, 1) Stop,
               Pick (0, 1) Stop, Pick (0, 3) Stop]),
          Pick (4, 5)
            (Each
              [Pick (0, 1) Stop, Pick (0, 1) Stop, Pick (0, 1) Stop, Pick (0, 1) Stop,
               Pick (0, 1) Stop, Pick (0, 1) Stop, Pick (0, 3) Stop]),
          Pick (5, 1)
            (Each
              [Pick (0, 3) Stop, Pick (4, 5) Stop, Pick (0, 1) Stop, Pick (0, 1) Stop,
               Pick (0, 1) Stop, Pick (0, 3) Stop]),
          Pick (5, 4)
            (Each
              [Pick (0, 1) Stop, Pick (0, 1) Stop, Pick (0, 1) Stop, Pick (0, 1) Stop,
               Pick (0, 1) Stop]),
          Pick (0, 1)
            (Each
              [Pick (6, 3) Stop, Pick (0, 3) Stop, Pick (0, 3) Stop, Pick (0, 3) Stop,
               Pick (6, 3) Stop, Pick (0, 3) Stop, Pick (6, 3) Stop])])"

text \<open>Light, on the board after (0,2): the value stays at or above -2.\<close>

definition light_after_0_2 :: strategy where
  "light_after_0_2 =
     Each
       [Pick (2, 2)
          (Each
            [Pick (4, 2) (Each [Stop, Stop, Stop, Stop, Stop, Stop, Stop, Stop]),
             Pick (4, 5) (Each [Stop, Stop, Stop, Stop]),
             Pick (5, 4) (Each [Stop, Stop, Stop, Stop, Stop, Stop, Stop])]),
        Pick (0, 4)
          (Each
            [Pick (2, 2) (Each [Stop, Stop, Stop]), Pick (5, 3) (Each [Stop, Stop]),
             Pick (5, 3) (Each [Stop, Stop, Stop]),
             Pick (1, 4) (Each [Stop, Stop, Stop, Stop, Stop, Stop]),
             Pick (1, 4) (Each [Stop, Stop, Stop, Stop, Stop, Stop, Stop]),
             Pick (1, 4) (Each [Stop, Stop, Stop, Stop]),
             Pick (5, 3) (Each [Stop, Stop, Stop, Stop])]),
        Pick (5, 3)
          (Each
            [Pick (0, 6) (Each [Stop, Stop, Stop, Stop, Stop, Stop, Stop]),
             Pick (2, 2) (Each [Stop, Stop, Stop, Stop]),
             Pick (3, 5) (Each [Stop, Stop, Stop, Stop])]),
        Pick (5, 3)
          (Each
            [Pick (3, 5) (Each [Stop, Stop, Stop, Stop, Stop]),
             Pick (4, 5) (Each [Stop, Stop, Stop, Stop, Stop]),
             Pick (2, 2) (Each [Stop, Stop, Stop, Stop, Stop, Stop]),
             Pick (2, 2) (Each [Stop, Stop, Stop, Stop, Stop, Stop, Stop]),
             Pick (1, 4) (Each [Stop, Stop, Stop, Stop, Stop]),
             Pick (3, 5) (Each [Stop, Stop, Stop, Stop, Stop])]),
        Pick (5, 3)
          (Each
            [Pick (3, 6) (Each [Stop, Stop, Stop, Stop, Stop]), Pick (0, 4) (Each [Stop, Stop]),
             Pick (2, 2) (Each [Stop, Stop, Stop, Stop, Stop]),
             Pick (3, 6) (Each [Stop, Stop, Stop, Stop, Stop]), Pick (6, 4) (Each [Stop, Stop]),
             Pick (4, 5) (Each [Stop, Stop, Stop])]),
        Pick (5, 6)
          (Each
            [Pick (4, 2) (Each [Stop, Stop, Stop, Stop, Stop, Stop, Stop]),
             Pick (0, 5) (Each [Stop, Stop, Stop, Stop, Stop, Stop]),
             Pick (5, 3) (Each [Stop, Stop, Stop, Stop]),
             Pick (2, 6) (Each [Stop, Stop, Stop, Stop, Stop, Stop, Stop]),
             Pick (5, 4) (Each [Stop, Stop, Stop, Stop, Stop, Stop, Stop]),
             Pick (5, 3) (Each [Stop, Stop, Stop, Stop, Stop, Stop, Stop])]),
        Pick (5, 3)
          (Each
            [Pick (3, 5) (Each [Stop, Stop, Stop, Stop]),
             Pick (3, 2) (Each [Stop, Stop, Stop, Stop]),
             Pick (5, 2) (Each [Stop, Stop, Stop, Stop, Stop]),
             Pick (6, 6) (Each [Stop, Stop])])]"

text \<open>Dark, on the board after (1,4): the value stays below 0.\<close>

definition dark_after_1_4 :: strategy where
  "dark_after_1_4 =
     Pick (0, 1)
       (Each
         [Pick (1, 5)
            (Each
              [Pick (4, 5) Stop, Pick (1, 0) Stop, Pick (0, 3) Stop, Pick (1, 0) Stop,
               Pick (1, 0) Stop, Pick (1, 0) Stop, Pick (1, 0) Stop]),
          Pick (0, 3)
            (Each
              [Pick (2, 1) Stop, Pick (0, 5) Stop, Pick (0, 0) Stop, Pick (2, 5) Stop,
               Pick (2, 5) Stop, Pick (0, 5) Stop]),
          Pick (0, 3)
            (Each
              [Pick (0, 5) Stop, Pick (2, 1) Stop, Pick (2, 5) Stop, Pick (2, 5) Stop,
               Pick (0, 5) Stop, Pick (0, 5) Stop]),
          Pick (1, 5)
            (Each
              [Pick (0, 3) Stop, Pick (5, 1) Stop, Pick (5, 1) Stop, Pick (5, 3) Stop,
               Pick (3, 2) Stop]),
          Pick (1, 5)
            (Each [Pick (4, 5) Stop, Pick (0, 5) Stop, Pick (2, 1) Stop, Pick (4, 1) Stop]),
          Pick (1, 5)
            (Each
              [Pick (5, 4) Stop, Pick (5, 4) Stop, Pick (6, 3) Stop, Pick (6, 3) Stop,
               Pick (5, 4) Stop])])"

text \<open>Dark, on the board after (2,2): the value stays below 0.\<close>

definition dark_after_2_2 :: strategy where
  "dark_after_2_2 =
     Pick (4, 5)
       (Each
         [Pick (0, 1)
            (Each
              [Pick (0, 3) Stop, Pick (0, 0) Stop, Pick (0, 3) Stop, Pick (0, 3) Stop,
               Pick (0, 3) Stop, Pick (0, 3) Stop]),
          Pick (0, 1)
            (Each
              [Pick (0, 4) Stop, Pick (0, 0) Stop, Pick (1, 1) Stop, Pick (1, 1) Stop,
               Pick (1, 1) Stop, Pick (2, 5) Stop, Pick (1, 4) Stop]),
          Pick (0, 1)
            (Each
              [Pick (0, 3) Stop, Pick (0, 0) Stop, Pick (0, 3) Stop, Pick (0, 3) Stop,
               Pick (2, 5) Stop, Pick (0, 3) Stop]),
          Pick (0, 1)
            (Each
              [Pick (0, 3) Stop, Pick (0, 0) Stop, Pick (0, 3) Stop, Pick (0, 3) Stop,
               Pick (0, 3) Stop, Pick (1, 5) Stop, Pick (0, 3) Stop]),
          Pick (0, 1)
            (Each
              [Pick (0, 3) Stop, Pick (1, 1) Stop, Pick (0, 3) Stop, Pick (1, 1) Stop,
               Pick (1, 1) Stop, Pick (3, 2) Stop, Pick (4, 2) Stop, Pick (1, 4) Stop]),
          Pick (0, 1)
            (Each
              [Pick (0, 3) Stop, Pick (1, 1) Stop, Pick (0, 3) Stop, Pick (1, 1) Stop,
               Pick (2, 5) Stop, Pick (3, 2) Stop, Pick (4, 2) Stop, Pick (1, 4) Stop]),
          Pick (0, 1)
            (Each
              [Pick (0, 3) Stop, Pick (1, 4) Stop, Pick (0, 3) Stop, Pick (1, 4) Stop,
               Pick (2, 1) Stop, Pick (1, 4) Stop, Pick (1, 4) Stop, Pick (1, 4) Stop,
               Pick (1, 4) Stop]),
          Pick (0, 1)
            (Each
              [Pick (0, 3) Stop, Pick (1, 4) Stop, Pick (0, 3) Stop, Pick (2, 5) Stop,
               Pick (1, 4) Stop, Pick (1, 4) Stop, Pick (1, 4) Stop]),
          Pick (1, 1)
            (Each
              [Pick (0, 2) Stop, Pick (0, 3) Stop, Pick (0, 4) Stop, Pick (1, 4) Stop,
               Pick (1, 4) Stop, Pick (5, 3) Stop, Pick (1, 4) Stop, Pick (1, 4) Stop,
               Pick (1, 5) Stop])])"

text \<open>Dark, on the board after (3,2): the value stays below 0.\<close>

definition dark_after_3_2 :: strategy where
  "dark_after_3_2 =
     Pick (0, 1)
       (Each
         [Pick (0, 3)
            (Each
              [Pick (1, 5) Stop, Pick (2, 1) Stop, Pick (2, 5) Stop, Pick (2, 5) Stop,
               Pick (2, 5) Stop, Pick (2, 5) Stop]),
          Pick (1, 4)
            (Each
              [Pick (4, 5) Stop, Pick (4, 5) Stop, Pick (4, 5) Stop, Pick (4, 5) Stop,
               Pick (4, 5) Stop, Pick (5, 3) Stop, Pick (5, 3) Stop, Pick (5, 4) Stop,
               Pick (5, 3) Stop]),
          Pick (2, 1)
            (Each
              [Pick (0, 3) Stop, Pick (0, 5) Stop, Pick (0, 3) Stop, Pick (4, 5) Stop,
               Pick (4, 5) Stop, Pick (0, 5) Stop, Pick (0, 5) Stop, Pick (0, 5) Stop]),
          Pick (4, 5)
            (Each
              [Pick (0, 3) Stop, Pick (1, 1) Stop, Pick (0, 3) Stop, Pick (0, 4) Stop,
               Pick (1, 1) Stop, Pick (1, 1) Stop, Pick (4, 2) Stop, Pick (1, 4) Stop]),
          Pick (3, 5)
            (Each
              [Pick (3, 1) Stop, Pick (3, 1) Stop, Pick (3, 1) Stop, Pick (5, 1) Stop,
               Pick (5, 1) Stop]),
          Pick (2, 5)
            (Each [Pick (6, 1) Stop, Pick (5, 3) Stop, Pick (5, 3) Stop, Pick (5, 3) Stop]),
          Pick (3, 5)
            (Each
              [Pick (3, 1) Stop, Pick (3, 1) Stop, Pick (3, 1) Stop, Pick (5, 4) Stop,
               Pick (5, 4) Stop]),
          Pick (2, 5)
            (Each [Pick (6, 4) Stop, Pick (5, 3) Stop, Pick (5, 2) Stop, Pick (5, 3) Stop])])"

text \<open>Light, on the board after (4,2): the value stays at or above 0.\<close>

definition light_after_4_2 :: strategy where
  "light_after_4_2 =
     Each
       [Pick (0, 3)
          (Each
            [Pick (0, 2) (Each [Stop, Stop, Stop, Stop]),
             Pick (4, 6) (Each [Stop, Stop, Stop, Stop, Stop, Stop, Stop])]),
        Pick (0, 3)
          (Each
            [Pick (0, 2) (Each [Stop, Stop, Stop]),
             Pick (4, 6) (Each [Stop, Stop, Stop, Stop, Stop, Stop, Stop])]),
        Pick (0, 3)
          (Each
            [Pick (1, 4) (Each [Stop, Stop, Stop, Stop]),
             Pick (3, 5) (Each [Stop, Stop, Stop, Stop, Stop, Stop, Stop]),
             Pick (2, 2) (Each [Stop, Stop, Stop, Stop, Stop]),
             Pick (1, 4) (Each [Stop, Stop, Stop, Stop]),
             Pick (1, 6) (Each [Stop, Stop, Stop, Stop, Stop, Stop])]),
        Pick (0, 3)
          (Each
            [Pick (1, 4) (Each [Stop, Stop, Stop, Stop]),
             Pick (4, 6) (Each [Stop, Stop, Stop, Stop, Stop, Stop, Stop]),
             Pick (1, 5) (Each [Stop, Stop, Stop, Stop, Stop, Stop]),
             Pick (1, 4) (Each [Stop, Stop, Stop, Stop, Stop]),
             Pick (4, 6) (Each [Stop, Stop, Stop, Stop, Stop]),
             Pick (2, 5) (Each [Stop, Stop, Stop, Stop, Stop, Stop])]),
        Pick (5, 6)
          (Each
            [Pick (0, 1) (Each [Stop, Stop]), Pick (2, 5) (Each [Stop, Stop, Stop]),
             Pick (2, 2) (Each [Stop, Stop, Stop, Stop, Stop, Stop])]),
        Pick (2, 2)
          (Each
            [Pick (0, 2) (Each [Stop, Stop, Stop, Stop, Stop, Stop, Stop, Stop]),
             Pick (2, 6) (Each [Stop, Stop, Stop, Stop, Stop, Stop, Stop, Stop, Stop, Stop]),
             Pick (4, 1) (Each [Stop, Stop, Stop, Stop, Stop, Stop]),
             Pick (4, 5) (Each [Stop, Stop, Stop, Stop, Stop, Stop, Stop]),
             Pick (4, 0) (Each [Stop, Stop, Stop]), Pick (4, 6) (Each [Stop, Stop, Stop])])]"

text \<open>Dark, on the board after (4,2): the value stays at or below 0.\<close>

definition dark_after_4_2 :: strategy where
  "dark_after_4_2 =
     Pick (0, 1)
       (Each
         [Pick (0, 3) (Each [Pick (3, 1) Stop]),
          Pick (1, 4)
            (Each
              [Pick (5, 4) Stop, Pick (5, 3) Stop, Pick (5, 3) Stop, Pick (4, 5) Stop,
               Pick (5, 3) Stop]),
          Pick (3, 1)
            (Each
              [Pick (2, 5) Stop, Pick (2, 5) Stop, Pick (4, 5) Stop, Pick (2, 5) Stop,
               Pick (4, 5) Stop])])"

text \<open>Dark, on the board after (5,2): the value stays at or below 0.\<close>

definition dark_after_5_2 :: strategy where
  "dark_after_5_2 =
     Pick (0, 1)
       (Each
         [Pick (0, 3) (Each [Pick (3, 1) Stop, Pick (2, 5) Stop, Pick (2, 5) Stop]),
          Pick (1, 4)
            (Each
              [Pick (5, 4) Stop, Pick (5, 3) Stop, Pick (5, 3) Stop, Pick (4, 5) Stop,
               Pick (5, 3) Stop]),
          Pick (3, 1)
            (Each [Pick (2, 5) Stop, Pick (2, 5) Stop, Pick (4, 5) Stop, Pick (4, 5) Stop]),
          Pick (2, 5)
            (Each [Pick (4, 5) Stop, Pick (2, 2) Stop, Pick (0, 5) Stop, Pick (2, 6) Stop]),
          Pick (2, 5)
            (Each [Pick (4, 5) Stop, Pick (0, 3) Stop, Pick (0, 5) Stop, Pick (2, 6) Stop])])"

section \<open>Properties of the closed forms\<close>

lemma DIRECTIONS_iff:
  "(dr, dc) \<in> set DIRECTIONS \<longleftrightarrow>
     (dr = -1 \<or> dr = 0 \<or> dr = 1) \<and> (dc = -1 \<or> dc = 0 \<or> dc = 1) \<and> \<not> (dr = 0 \<and> dc = 0)"
  by (auto simp: DIRECTIONS_def)

lemma scan_loop_off: "\<not> on_board r c \<Longrightarrow> scan_loop b f r c dr dc = Some False"
  by (subst scan_loop.simps) (auto simp: on_board_def)

lemma scan_loop_steps:
  "\<exists>k\<le>n. \<not> on_board (r + int k * dr) (c + int k * dc) \<Longrightarrow>
   scan_loop b f r c dr dc = Some (scan_steps n b f r c dr dc)"
proof (induction n arbitrary: r c)
  case 0
  then show ?case by (simp add: scan_loop_off)
next
  case (Suc n)
  show ?case
  proof (cases "on_board r c")
    case False
    then show ?thesis by (simp add: scan_loop_off)
  next
    case True
    from Suc.prems obtain k where k: "k \<le> Suc n" "\<not> on_board (r + int k * dr) (c + int k * dc)"
      by blast
    with True have "k \<noteq> 0" by (cases k) auto
    then obtain k' where k': "k = Suc k'" by (cases k) auto
    have "\<not> on_board ((r + dr) + int k' * dr) ((c + dc) + int k' * dc)"
      using k(2) by (simp add: k' algebra_simps)
    with k(1) k' have "\<exists>j\<le>n. \<not> on_board ((r + dr) + int j * dr) ((c + dc) + int j * dc)"
      by auto
    from Suc.IH[OF this] True show ?thesis
      by (subst scan_loop.simps) (simp add: on_board_def)
  qed
qed

lemma leaves_board:
  assumes "(dr, dc) \<in> set DIRECTIONS"
  shows "\<exists>k\<le>8. \<not> on_board (r + int k * dr) (c + int k * dc)"
proof -
  have "\<not> on_board (r + int 0 * dr) (c + int 0 * dc) \<or> \<not> on_board (r + int 8 * dr) (c + int 8 * dc)"
    using assms by (auto simp: DIRECTIONS_iff on_board_def)
  then show ?thesis by (metis le0 order_refl)
qed

lemma scan_loop_dir:
  "(dr, dc) \<in> set DIRECTIONS \<Longrightarrow>
   scan_loop b f r c dr dc = Some (scan_steps 8 b f r c dr dc)"
  by (rule scan_loop_steps) (rule leaves_board)

lemma captures_in_dir_eq:
  "(dr, dc) \<in> set DIRECTIONS \<Longrightarrow>
   captures_in_dir b row dr col dc w = Some (captures_dir b row col (dr, dc) w)"
  by (auto simp: captures_in_dir_def captures_dir_def scan_loop_dir on_board_def Let_def)

lemma can_capture_loop_eq:
  "set ds \<subseteq> set DIRECTIONS \<Longrightarrow>
   can_capture_loop b row col w ds = Some (\<exists>d\<in>set ds. captures_dir b row col d w)"
  by (induction ds) (auto simp: captures_in_dir_eq)

lemma can_capture_eq: "can_capture b row col w = Some (captures_any b row col w)"
  by (simp add: can_capture_def captures_any_def can_capture_loop_eq)

lemma legal_moves_loop_eq:
  "legal_moves_loop b w cs acc =
     Some (acc @ filter (\<lambda>(row, col). b row col = NOBODY \<and> captures_any b row col w) cs)"
proof (induction cs arbitrary: acc)
  case Nil
  show ?case by simp
next
  case (Cons x cs)
  obtain row col where x: "x = (row, col)" by (cases x)
  show ?case by (simp add: x Cons.IH can_capture_eq)
qed

lemma generate_legal_moves_eq: "generate_legal_moves b w = Some (legal_moves b w)"
  by (simp add: generate_legal_moves_def legal_moves_def legal_moves_loop_eq)

lemma check_game_over_eq: "check_game_over b = Some (outcome b)"
  by (simp add: check_game_over_def outcome_def generate_legal_moves_eq)

lemma set_cells: "set cells = {(r, c). on_board r c}"
  by (auto simp: cells_def on_board_def)

lemma legal_moves_on_board: "(r, c) \<in> set (legal_moves b w) \<Longrightarrow> on_board r c"
  by (auto simp: legal_moves_def set_cells)

lemma hit_0: "\<not> hit 0 b f r c dr dc"
  by (simp add: hit_def)

lemma hit_Suc:
  "hit (Suc n) b f r c dr dc \<longleftrightarrow>
     on_board r c \<and> (b r c = f \<or> (b r c \<noteq> NOBODY \<and> b r c \<noteq> f \<and> hit n b f (r + dr) (c + dc) dr dc))"
  (is "?L \<longleftrightarrow> ?R")
proof
  assume ?L
  then obtain k where k: "k < Suc n" "on_board (r + int k * dr) (c + int k * dc)"
      "b (r + int k * dr) (c + int k * dc) = f"
      "\<forall>j<k. on_board (r + int j * dr) (c + int j * dc) \<and>
                b (r + int j * dr) (c + int j * dc) \<noteq> NOBODY \<and>
                b (r + int j * dr) (c + int j * dc) \<noteq> f"
    unfolding hit_def by blast
  show ?R
  proof (cases k)
    case 0
    with k show ?thesis by simp
  next
    case (Suc k')
    from k(4) Suc have z: "on_board r c \<and> b r c \<noteq> NOBODY \<and> b r c \<noteq> f"
      by (metis add.right_neutral mult_zero_left of_nat_0 zero_less_Suc)
    have "hit n b f (r + dr) (c + dc) dr dc"
      unfolding hit_def
    proof (intro exI[of _ k'] conjI allI impI)
      show "k' < n" using k(1) Suc by simp
      show "on_board (r + dr + int k' * dr) (c + dc + int k' * dc)"
        using k(2) Suc by (simp add: algebra_simps)
      show "b (r + dr + int k' * dr) (c + dc + int k' * dc) = f"
        using k(3) Suc by (simp add: algebra_simps)
    next
      fix j assume "j < k'"
      then have "Suc j < k" using Suc by simp
      from k(4)[rule_format, OF this]
      show "on_board (r + dr + int j * dr) (c + dc + int j * dc)"
        "b (r + dr + int j * dr) (c + dc + int j * dc) \<noteq> NOBODY"
        "b (r + dr + int j * dr) (c + dc + int j * dc) \<noteq> f"
        by (simp_all add: algebra_simps)
    qed
    with z show ?thesis by simp
  qed
next
  assume R: ?R
  show ?L
  proof (cases "b r c = f")
    case True
    with R show ?thesis unfolding hit_def by (intro exI[of _ 0]) simp
  next
    case False
    with R have z: "on_board r c" "b r c \<noteq> NOBODY" and h: "hit n b f (r + dr) (c + dc) dr dc"
      by auto
    from h obtain k where k: "k < n" "on_board (r + dr + int k * dr) (c + dc + int k * dc)"
      "b (r + dr + int k * dr) (c + dc + int k * dc) = f"
      "\<forall>j<k. on_board (r + dr + int j * dr) (c + dc + int j * dc) \<and>
                b (r + dr + int j * dr) (c + dc + int j * dc) \<noteq> NOBODY \<and>
                b (r + dr + int j * dr) (c + dc + int j * dc) \<noteq> f"
      unfolding hit_def by blast
    show ?thesis
      unfolding hit_def
    proof (intro exI[of _ "Suc k"] conjI allI impI)
      show "Suc k < Suc n" using k(1) by simp
      show "on_board (r + int (Suc k) * dr) (c + int (Suc k) * dc)"
        using k(2) by (simp add: algebra_simps)
      show "b (r + int (Suc k) * dr) (c + int (Suc k) * dc) = f"
        using k(3) by (simp add: algebra_simps)
    next
      fix j assume j: "j < Suc k"
      show "on_board (r + int j * dr) (c + int j * dc)"
        "b (r + int j * dr) (c + int j * dc) \<noteq> NOBODY"
        "b (r + int j * dr) (c + int j * dc) \<noteq> f"
      proof (atomize (full), cases j)
        case 0
        with z False show "on_board (r + int j * dr) (c + int j * dc) \<and>
          b (r + int j * dr) (c + int j * dc) \<noteq> NOBODY \<and> b (r + int j * dr) (c + int j * dc) \<noteq> f"
          by simp
      next
        case (Suc j')
        with j have "j' < k" by simp
        from k(4)[rule_format, OF this] Suc
        show "on_board (r + int j * dr) (c + int j * dc) \<and>
          b (r + int j * dr) (c + int j * dc) \<noteq> NOBODY \<and> b (r + int j * dr) (c + int j * dc) \<noteq> f"
          by (simp add: algebra_simps)
      qed
    qed
  qed
qed

lemma scan_steps_hit: "f \<noteq> NOBODY \<Longrightarrow> scan_steps n b f r c dr dc \<longleftrightarrow> hit n b f r c dr dc"
  by (induction n arbitrary: r c) (auto simp: hit_0 hit_Suc)

lemma getitem_on_board: "on_board r c \<Longrightarrow> getitem b r c = Inr (b r c)"
  by (simp add: getitem_def np_index_def on_board_def)

lemma setitem_on_board: "on_board r c \<Longrightarrow> setitem b r c v = Inr (b(r := (b r)(c := v)))"
  by (simp add: setitem_def np_index_def on_board_def)

lemma ray_not_origin:
  "(dr, dc) \<in> set DIRECTIONS \<Longrightarrow> r + int (Suc j) * dr \<noteq> r \<or> c + int (Suc j) * dc \<noteq> c"
  by (auto simp: DIRECTIONS_iff)

lemma upd_other: "r' \<noteq> r \<or> c' \<noteq> c \<Longrightarrow> (b(r := (b r)(c := v))) r' c' = b r' c'"
  by auto

lemma upd_ray:
  assumes "(dr, dc) \<in> set DIRECTIONS"
  shows "(b(r := (b r)(c := v))) (r + dr + int j * dr) (c + dc + int j * dc) =
         b (r + dr + int j * dr) (c + dc + int j * dc)"
proof -
  have "r + dr + int j * dr \<noteq> r \<or> c + dc + int j * dc \<noteq> c"
    using ray_not_origin[OF assms, of r j c] by (simp add: algebra_simps)
  then show ?thesis by (rule upd_other)
qed

lemma flip_loop_steps:
  assumes dir: "(dr, dc) \<in> set DIRECTIONS"
  shows "\<exists>k<n. on_board (r + int k * dr) (c + int k * dc) \<and> b (r + int k * dr) (c + int k * dc) \<noteq> e \<and>
            (\<forall>j<k. on_board (r + int j * dr) (c + int j * dc) \<and> b (r + int j * dr) (c + int j * dc) = e)
         \<Longrightarrow> flip_loop b r c dr dc e = Some (Inr (flip_steps n b r c dr dc e))"
proof (induction n arbitrary: b r c)
  case 0
  then show ?case by simp
next
  case (Suc n)
  then obtain k where k: "k < Suc n" "on_board (r + int k * dr) (c + int k * dc)"
    "b (r + int k * dr) (c + int k * dc) \<noteq> e"
    "\<forall>j<k. on_board (r + int j * dr) (c + int j * dc) \<and> b (r + int j * dr) (c + int j * dc) = e"
    by blast
  show ?case
  proof (cases k)
    case 0
    with k have "on_board r c" "b r c \<noteq> e" by simp_all
    then show ?thesis
      by (subst flip_loop.simps) (simp add: getitem_on_board)
  next
    case (Suc k')
    from k(4) Suc have z: "on_board r c" "b r c = e"
      by (metis add.right_neutral mult_zero_left of_nat_0 zero_less_Suc)+
    let ?b = "b(r := (b r)(c := - e))"
    have "\<exists>k<n. on_board (r + dr + int k * dr) (c + dc + int k * dc) \<and>
            ?b (r + dr + int k * dr) (c + dc + int k * dc) \<noteq> e \<and>
            (\<forall>j<k. on_board (r + dr + int j * dr) (c + dc + int j * dc) \<and>
                    ?b (r + dr + int j * dr) (c + dc + int j * dc) = e)"
    proof (intro exI[of _ k'] conjI allI impI)
      show "k' < n" using k(1) Suc by simp
      show "on_board (r + dr + int k' * dr) (c + dc + int k' * dc)"
        using k(2) Suc by (simp add: algebra_simps)
      show "?b (r + dr + int k' * dr) (c + dc + int k' * dc) \<noteq> e"
        unfolding upd_ray[OF dir] using k(3) Suc by (simp add: algebra_simps)
    next
      fix j assume "j < k'"
      then have "Suc j < k" using Suc by simp
      from k(4)[rule_format, OF this]
      show "on_board (r + dr + int j * dr) (c + dc + int j * dc)"
        "?b (r + dr + int j * dr) (c + dc + int j * dc) = e"
        unfolding upd_ray[OF dir] by (simp_all add: algebra_simps)
    qed
    from Suc.IH[OF this]
    have IH: "flip_loop ?b (r + dr) (c + dc) dr dc e =
                Some (Inr (flip_steps n ?b (r + dr) (c + dc) dr dc e))" .
    have "flip_loop b r c dr dc e = flip_loop ?b (r + dr) (c + dc) dr dc e"
      by (subst flip_loop.simps) (simp add: z getitem_on_board setitem_on_board)
    moreover have "flip_steps (Suc n) b r c dr dc e = flip_steps n ?b (r + dr) (c + dc) dr dc e"
      using z by simp
    ultimately show ?thesis using IH by (simp only:)
  qed
qed

lemma on_board_ray_bound:
  "(dr, dc) \<in> set DIRECTIONS \<Longrightarrow> on_board r c \<Longrightarrow> on_board (r + int k * dr) (c + int k * dc) \<Longrightarrow> k < 8"
  by (auto simp: DIRECTIONS_iff on_board_def)

text \<open>Where a capture is possible the run of enemy pieces ends on the board.\<close>

lemma captures_dir_stop:
  assumes dir: "(dr, dc) \<in> set DIRECTIONS" and cap: "captures_dir b row col (dr, dc) w"
  defines "e \<equiv> (if w then BLACK else WHITE)"
  shows "\<exists>k<8. on_board (row + dr + int k * dr) (col + dc + int k * dc) \<and>
                b (row + dr + int k * dr) (col + dc + int k * dc) \<noteq> e \<and>
            (\<forall>j<k. on_board (row + dr + int j * dr) (col + dc + int j * dc) \<and>
                    b (row + dr + int j * dr) (col + dc + int j * dc) = e)"
proof -
  let ?f = "(if w then WHITE else BLACK)"
  let ?on = "\<lambda>k. on_board (row + dr + int k * dr) (col + dc + int k * dc)"
  let ?at = "\<lambda>k. b (row + dr + int k * dr) (col + dc + int k * dc)"
  from cap have on0: "?on 0" and e0: "?at 0 = e"
    and h: "hit 8 b ?f (row + 2 * dr) (col + 2 * dc) dr dc"
    by (auto simp: captures_dir_def e_def scan_steps_hit)
  from h obtain m where m: "on_board (row + 2 * dr + int m * dr) (col + 2 * dc + int m * dc)"
    "b (row + 2 * dr + int m * dr) (col + 2 * dc + int m * dc) = ?f"
    "\<forall>j<m. on_board (row + 2 * dr + int j * dr) (col + 2 * dc + int j * dc)"
    unfolding hit_def by blast
  have on: "?on j" if "j \<le> Suc m" for j
  proof (cases j)
    case 0
    with on0 show ?thesis by simp
  next
    case (Suc j')
    with that have "j' \<le> m" by simp
    then have "on_board (row + 2 * dr + int j' * dr) (col + 2 * dc + int j' * dc)"
      using m(1,3) by (cases "j' = m") auto
    then show ?thesis using Suc by (simp add: algebra_simps)
  qed
  have "?at (Suc m) = ?f" using m(2) by (simp add: algebra_simps)
  then have ne: "?at (Suc m) \<noteq> e" by (auto simp: e_def)
  define k where "k = (LEAST k. ?at k \<noteq> e)"
  have k1: "?at k \<noteq> e" unfolding k_def using ne by (rule LeastI)
  have k2: "k \<le> Suc m" unfolding k_def using ne by (rule Least_le)
  have k3: "?at j = e" if "j < k" for j
    using not_less_Least[of j "\<lambda>k. ?at k \<noteq> e"] that unfolding k_def by blast
  have "?on k" using on k2 by blast
  with on0 dir have "k < 8" using on_board_ray_bound[of dr dc "row + dr" "col + dc" k] by simp
  moreover have "\<forall>j<k. ?on j \<and> ?at j = e" using on k2 k3 by auto
  ultimately show ?thesis using k1 \<open>?on k\<close> by blast
qed

lemma flip_loop_captures:
  "(dr, dc) \<in> set DIRECTIONS \<Longrightarrow> captures_dir b row col (dr, dc) w \<Longrightarrow>
   flip_loop b (row + dr) (col + dc) dr dc (if w then BLACK else WHITE) =
     Some (Inr (flip_steps 8 b (row + dr) (col + dc) dr dc (if w then BLACK else WHITE)))"
  by (rule flip_loop_steps, assumption, rule captures_dir_stop)

lemma capture_loop_eq:
  "set ds \<subseteq> set DIRECTIONS \<Longrightarrow>
   capture_loop b row col w ds = Some (Inr (capture_dirs b row col w ds))"
proof (induction ds arbitrary: b)
  case Nil
  show ?case by simp
next
  case (Cons d ds)
  obtain dr dc where d: "d = (dr, dc)" by (cases d)
  from Cons.prems d have dir: "(dr, dc) \<in> set DIRECTIONS" and sub: "set ds \<subseteq> set DIRECTIONS"
    by auto
  show ?case
    by (simp add: d captures_in_dir_eq[OF dir] flip_loop_captures[OF dir] Cons.IH[OF sub]
        capture_step_def)
qed

lemma play_move_eq:
  "on_board (fst move) (snd move) \<Longrightarrow> play_move b move w = Some (Inr (moved b move w))"
  by (simp add: play_move_def setitem_on_board capture_def capture_loop_eq moved_def)

text \<open>The flipping loops leave a cell of the mover's colour as it is.\<close>

lemma flip_steps_keeps: "b x y = - e \<Longrightarrow> flip_steps n b r c dr dc e x y = - e"
proof (induction n arbitrary: b r c)
  case 0
  then show ?case by simp
next
  case (Suc n)
  have "(b(r := (b r)(c := - e))) x y = - e"
    using Suc.prems by (auto simp: fun_upd_def)
  then have "flip_steps n (b(r := (b r)(c := - e))) (r + dr) (c + dc) dr dc e x y = - e"
    by (rule Suc.IH)
  with Suc.prems show ?case by simp
qed

text \<open>An index within the range of the axis is taken modulo the length of the axis.\<close>

lemma np_index_mod:
  assumes "- NUM_COLS \<le> i" and "i < NUM_COLS"
  shows "np_index i = Inr (i mod NUM_COLS)"
proof (cases "0 \<le> i")
  case True
  with assms show ?thesis by (simp add: np_index_def)
next
  case False
  have "i mod 8 = (i + 8) mod 8" by simp
  also have "\<dots> = i + 8" using assms False by (intro mod_pos_pos_trivial) simp_all
  finally show ?thesis using False assms by (simp add: np_index_def)
qed

text \<open>So does the loop of \<open>capture\<close> over the directions.\<close>

lemma capture_dirs_keeps:
  "b x y = (if w then WHITE else BLACK) \<Longrightarrow>
   capture_dirs b row col w ds x y = (if w then WHITE else BLACK)"
proof (induction ds arbitrary: b)
  case Nil
  then show ?case by simp
next
  case (Cons d ds)
  have "capture_step b row col w d x y = (if w then WHITE else BLACK)"
    using Cons.prems
      flip_steps_keeps[of b x y "if w then BLACK else WHITE" 8 "row + fst d" "col + snd d" "fst d" "snd d"]
    by (auto simp: capture_step_def)
  then show ?case using Cons.IH by simp
qed

lemma run_to_0: "\<not> run_to 0 b r c dr dc e x y"
  by (simp add: run_to_def)

lemma run_to_Suc:
  "run_to (Suc n) b r c dr dc e x y \<longleftrightarrow>
     on_board r c \<and> b r c = e \<and> ((x = r \<and> y = c) \<or> run_to n b (r + dr) (c + dc) dr dc e x y)"
  (is "?L \<longleftrightarrow> ?R")
proof
  assume ?L
  then obtain j where j: "j < Suc n" "x = r + int j * dr" "y = c + int j * dc"
    "\<forall>i\<le>j. on_board (r + int i * dr) (c + int i * dc) \<and> b (r + int i * dr) (c + int i * dc) = e"
    unfolding run_to_def by blast
  from j(4)[rule_format, of 0] have z: "on_board r c" "b r c = e" by simp_all
  show ?R
  proof (cases j)
    case 0
    with j z show ?thesis by simp
  next
    case (Suc j')
    have "run_to n b (r + dr) (c + dc) dr dc e x y"
      unfolding run_to_def
    proof (intro exI[of _ j'] conjI allI impI)
      show "j' < n" using j(1) Suc by simp
      show "x = r + dr + int j' * dr" "y = c + dc + int j' * dc"
        using j(2,3) Suc by (simp_all add: algebra_simps)
    next
      fix i assume "i \<le> j'"
      then have "Suc i \<le> j" using Suc by simp
      from j(4)[rule_format, OF this]
      show "on_board (r + dr + int i * dr) (c + dc + int i * dc)"
        "b (r + dr + int i * dr) (c + dc + int i * dc) = e"
        by (simp_all add: algebra_simps)
    qed
    with z show ?thesis by simp
  qed
next
  assume R: ?R
  then have z: "on_board r c" "b r c = e" by simp_all
  from R consider "x = r \<and> y = c" | "run_to n b (r + dr) (c + dc) dr dc e x y" by blast
  then show ?L
  proof cases
    case 1
    with z show ?thesis unfolding run_to_def by (intro exI[of _ 0]) simp
  next
    case 2
    then obtain j where j: "j < n" "x = r + dr + int j * dr" "y = c + dc + int j * dc"
      "\<forall>i\<le>j. on_board (r + dr + int i * dr) (c + dc + int i * dc) \<and>
              b (r + dr + int i * dr) (c + dc + int i * dc) = e"
      unfolding run_to_def by blast
    show ?thesis
      unfolding run_to_def
    proof (intro exI[of _ "Suc j"] conjI allI impI)
      show "Suc j < Suc n" using j(1) by simp
      show "x = r + int (Suc j) * dr" "y = c + int (Suc j) * dc"
        using j(2,3) by (simp_all add: algebra_simps)
    next
      fix i assume i: "i \<le> Suc j"
      show "on_board (r + int i * dr) (c + int i * dc)" "b (r + int i * dr) (c + int i * dc) = e"
      proof (atomize (full), cases i)
        case 0
        with z show "on_board (r + int i * dr) (c + int i * dc) \<and> b (r + int i * dr) (c + int i * dc) = e"
          by simp
      next
        case (Suc i')
        with i have "i' \<le> j" by simp
        from j(4)[rule_format, OF this] Suc
        show "on_board (r + int i * dr) (c + int i * dc) \<and> b (r + int i * dr) (c + int i * dc) = e"
          by (simp add: algebra_simps)
      qed
    qed
  qed
qed

lemma run_to_upd:
  assumes "(dr, dc) \<in> set DIRECTIONS"
  shows "run_to n (b(r := (b r)(c := v))) (r + dr) (c + dc) dr dc e x y =
         run_to n b (r + dr) (c + dc) dr dc e x y"
  unfolding run_to_def upd_ray[OF assms] ..

lemma run_to_not_origin:
  assumes "(dr, dc) \<in> set DIRECTIONS"
  shows "\<not> run_to n b (r + dr) (c + dc) dr dc e r c"
proof
  assume "run_to n b (r + dr) (c + dc) dr dc e r c"
  then obtain j where "r = r + dr + int j * dr" "c = c + dc + int j * dc"
    unfolding run_to_def by blast
  then have "r + int (Suc j) * dr = r \<and> c + int (Suc j) * dc = c"
    by (simp add: algebra_simps)
  with ray_not_origin[OF assms, of r j c] show False by blast
qed

lemma flip_steps_char:
  assumes dir: "(dr, dc) \<in> set DIRECTIONS"
  shows "flip_steps n b r c dr dc e x y = (if run_to n b r c dr dc e x y then - e else b x y)"
proof (induction n arbitrary: b r c)
  case 0
  show ?case by (simp add: run_to_0)
next
  case (Suc n)
  show ?case
  proof (cases "on_board r c \<and> b r c = e")
    case False
    then show ?thesis by (auto simp: run_to_Suc)
  next
    case True
    let ?b = "b(r := (b r)(c := - e))"
    have "flip_steps (Suc n) b r c dr dc e x y = flip_steps n ?b (r + dr) (c + dc) dr dc e x y"
      using True by simp
    also have "\<dots> = (if run_to n b (r + dr) (c + dc) dr dc e x y then - e else ?b x y)"
      unfolding Suc.IH run_to_upd[OF dir] ..
    also have "\<dots> = (if run_to (Suc n) b r c dr dc e x y then - e else b x y)"
    proof (cases "x = r \<and> y = c")
      case True
      then show ?thesis using \<open>on_board r c \<and> b r c = e\<close> by (simp add: run_to_Suc)
    next
      case False
      then have "?b x y = b x y" by auto
      then show ?thesis using False \<open>on_board r c \<and> b r c = e\<close> by (simp add: run_to_Suc)
    qed
    finally show ?thesis .
  qed
qed

text \<open>A capture test and a run read only the cells of their own ray.\<close>

lemma captures_dir_cong:
  assumes "\<And>j. b1 (row + dr + int j * dr) (col + dc + int j * dc) =
                b2 (row + dr + int j * dr) (col + dc + int j * dc)"
  shows "captures_dir b1 row col (dr, dc) w = captures_dir b2 row col (dr, dc) w"
proof -
  have a: "b1 (row + dr) (col + dc) = b2 (row + dr) (col + dc)"
    using assms[of 0] by simp
  have b: "b1 (row + 2 * dr + int k * dr) (col + 2 * dc + int k * dc) =
           b2 (row + 2 * dr + int k * dr) (col + 2 * dc + int k * dc)" for k
    using assms[of "Suc k"] by (simp add: algebra_simps)
  show ?thesis
    by (simp add: captures_dir_def scan_steps_hit hit_def a b)
qed

lemma run_to_cong:
  assumes "\<And>j. b1 (r + int j * dr) (c + int j * dc) = b2 (r + int j * dr) (c + int j * dc)"
  shows "run_to n b1 r c dr dc e x y = run_to n b2 r c dr dc e x y"
  by (simp add: run_to_def assms)

lemma rays_disjoint:
  assumes "(dr, dc) \<in> set DIRECTIONS" "(dr', dc') \<in> set DIRECTIONS" "(dr, dc) \<noteq> (dr', dc')"
  shows "row + int (Suc j) * dr \<noteq> row + int (Suc i) * dr' \<or> col + int (Suc j) * dc \<noteq> col + int (Suc i) * dc'"
  using assms by (auto simp: DIRECTIONS_iff)

lemma capture_step_char:
  assumes dir: "(dr, dc) \<in> set DIRECTIONS"
  shows "capture_step b row col w (dr, dc) x y =
     (if captures_dir b row col (dr, dc) w \<and>
         run_to 8 b (row + dr) (col + dc) dr dc (if w then BLACK else WHITE) x y
      then (if w then WHITE else BLACK) else b x y)"
  by (simp add: capture_step_def flip_steps_char[OF dir])

text \<open>A flip along one direction leaves the cells of the rays of the other directions alone.\<close>

lemma capture_step_other:
  assumes dir: "(dr, dc) \<in> set DIRECTIONS" and dir': "(dr', dc') \<in> set DIRECTIONS"
    and ne: "(dr, dc) \<noteq> (dr', dc')"
  shows "capture_step b row col w (dr, dc) (row + dr' + int j * dr') (col + dc' + int j * dc') =
         b (row + dr' + int j * dr') (col + dc' + int j * dc')"
proof -
  have "\<not> run_to 8 b (row + dr) (col + dc) dr dc e (row + dr' + int j * dr') (col + dc' + int j * dc')"
    for e
  proof
    assume "run_to 8 b (row + dr) (col + dc) dr dc e (row + dr' + int j * dr') (col + dc' + int j * dc')"
    then obtain i where "row + dr' + int j * dr' = row + dr + int i * dr"
      "col + dc' + int j * dc' = col + dc + int i * dc"
      unfolding run_to_def by blast
    then have "row + int (Suc i) * dr = row + int (Suc j) * dr' \<and>
               col + int (Suc i) * dc = col + int (Suc j) * dc'"
      by (simp add: algebra_simps)
    with rays_disjoint[OF dir dir' ne, of row i j col] show False by blast
  qed
  then show ?thesis by (simp add: capture_step_char[OF dir])
qed

lemma capture_dirs_char:
  assumes "distinct ds" "set ds \<subseteq> set DIRECTIONS"
  shows "capture_dirs b row col w ds x y =
     (if \<exists>d\<in>set ds. captures_dir b row col d w \<and>
           run_to 8 b (row + fst d) (col + snd d) (fst d) (snd d) (if w then BLACK else WHITE) x y
      then (if w then WHITE else BLACK) else b x y)"
  using assms
proof (induction ds arbitrary: b)
  case Nil
  show ?case by simp
next
  case (Cons d ds)
  obtain dr dc where d: "d = (dr, dc)" by (cases d)
  from Cons.prems d have dir: "(dr, dc) \<in> set DIRECTIONS" and sub: "set ds \<subseteq> set DIRECTIONS"
    and dist: "distinct ds" and notin: "(dr, dc) \<notin> set ds"
    by auto
  let ?e = "if w then BLACK else WHITE"
  let ?b = "capture_step b row col w (dr, dc)"
  have same: "captures_dir ?b row col d' w = captures_dir b row col d' w \<and>
        run_to 8 ?b (row + fst d') (col + snd d') (fst d') (snd d') ?e x y =
        run_to 8 b (row + fst d') (col + snd d') (fst d') (snd d') ?e x y"
    if d': "d' \<in> set ds" for d'
  proof -
    obtain dr' dc' where d'2: "d' = (dr', dc')" by (cases d')
    from d' d'2 sub notin have dir': "(dr', dc') \<in> set DIRECTIONS" and ne: "(dr, dc) \<noteq> (dr', dc')"
      by auto
    note eq = capture_step_other[OF dir dir' ne, of b row col w]
    show ?thesis
      unfolding d'2 fst_conv snd_conv
      by (intro conjI captures_dir_cong run_to_cong eq)
  qed
  have "capture_dirs b row col w (d # ds) x y = capture_dirs ?b row col w ds x y"
    by (simp add: d)
  also have "\<dots> = (if \<exists>d'\<in>set ds. captures_dir ?b row col d' w \<and>
           run_to 8 ?b (row + fst d') (col + snd d') (fst d') (snd d') ?e x y
      then (if w then WHITE else BLACK) else ?b x y)"
    by (rule Cons.IH[OF dist sub])
  also have "\<dots> = (if \<exists>d'\<in>set ds. captures_dir b row col d' w \<and>
           run_to 8 b (row + fst d') (col + snd d') (fst d') (snd d') ?e x y
      then (if w then WHITE else BLACK) else ?b x y)"
  proof -
    have "(\<exists>d'\<in>set ds. captures_dir ?b row col d' w \<and>
             run_to 8 ?b (row + fst d') (col + snd d') (fst d') (snd d') ?e x y) \<longleftrightarrow>
          (\<exists>d'\<in>set ds. captures_dir b row col d' w \<and>
             run_to 8 b (row + fst d') (col + snd d') (fst d') (snd d') ?e x y)"
      by (intro bex_cong refl) (simp add: same)
    then show ?thesis by (simp only:)
  qed
  also have "\<dots> = (if \<exists>d'\<in>set (d # ds). captures_dir b row col d' w \<and>
           run_to 8 b (row + fst d') (col + snd d') (fst d') (snd d') ?e x y
      then (if w then WHITE else BLACK) else b x y)"
    by (auto simp: d capture_step_char[OF dir])
  finally show ?case .
qed

lemma distinct_DIRECTIONS: "distinct DIRECTIONS"
  by (simp add: DIRECTIONS_def)

text \<open>What \<open>play_move\<close> returns, cell by cell.\<close>

lemma moved_char:
  "moved b (row, col) w x y =
     (if x = row \<and> y = col then (if w then WHITE else BLACK)
      else if \<exists>d\<in>set DIRECTIONS. captures_dir b row col d w \<and>
           run_to 8 b (row + fst d) (col + snd d) (fst d) (snd d) (if w then BLACK else WHITE) x y
      then (if w then WHITE else BLACK) else b x y)"
proof -
  let ?s = "if w then WHITE else BLACK"
  let ?e = "if w then BLACK else WHITE"
  let ?b = "b(row := (b row)(col := ?s))"
  have same: "captures_dir ?b row col d w = captures_dir b row col d w \<and>
        run_to 8 ?b (row + fst d) (col + snd d) (fst d) (snd d) ?e x y =
        run_to 8 b (row + fst d) (col + snd d) (fst d) (snd d) ?e x y"
    if d: "d \<in> set DIRECTIONS" for d
  proof -
    obtain dr dc where d2: "d = (dr, dc)" by (cases d)
    from d d2 have dir: "(dr, dc) \<in> set DIRECTIONS" by simp
    show ?thesis
      unfolding d2 fst_conv snd_conv
      by (intro conjI captures_dir_cong run_to_cong upd_ray[OF dir])
  qed
  have origin: "\<not> run_to 8 b (row + fst d) (col + snd d) (fst d) (snd d) ?e row col"
    if d: "d \<in> set DIRECTIONS" for d
    using run_to_not_origin[of "fst d" "snd d"] d by simp
  have "moved b (row, col) w x y =
     (if \<exists>d\<in>set DIRECTIONS. captures_dir ?b row col d w \<and>
           run_to 8 ?b (row + fst d) (col + snd d) (fst d) (snd d) ?e x y
      then ?s else ?b x y)"
    unfolding moved_def fst_conv snd_conv
    by (rule capture_dirs_char[OF distinct_DIRECTIONS subset_refl])
  also have "\<dots> = (if \<exists>d\<in>set DIRECTIONS. captures_dir b row col d w \<and>
           run_to 8 b (row + fst d) (col + snd d) (fst d) (snd d) ?e x y
      then ?s else ?b x y)"
  proof -
    have "(\<exists>d\<in>set DIRECTIONS. captures_dir ?b row col d w \<and>
             run_to 8 ?b (row + fst d) (col + snd d) (fst d) (snd d) ?e x y) \<longleftrightarrow>
          (\<exists>d\<in>set DIRECTIONS. captures_dir b row col d w \<and>
             run_to 8 b (row + fst d) (col + snd d) (fst d) (snd d) ?e x y)"
      by (intro bex_cong refl) (simp add: same)
    then show ?thesis by (simp only:)
  qed
  finally show ?thesis using origin by auto
qed

lemma valid_boardD:
  "valid_board b \<Longrightarrow> on_board r c \<Longrightarrow> b r c = WHITE \<or> b r c = BLACK \<or> b r c = NOBODY"
  by (auto simp: valid_board_def set_cells)

lemma on_board_convex:
  "(dr, dc) \<in> set DIRECTIONS \<Longrightarrow> on_board r c \<Longrightarrow> on_board (r + int k * dr) (c + int k * dc) \<Longrightarrow>
   i \<le> k \<Longrightarrow> on_board (r + int i * dr) (c + int i * dc)"
  by (auto simp: DIRECTIONS_iff on_board_def)

lemma captures_dir_first_own:
  assumes dir: "(dr, dc) \<in> set DIRECTIONS" and valid: "valid_board b"
    and cap: "captures_dir b row col (dr, dc) w"
  shows "\<exists>k. 2 \<le> k \<and> k \<le> 8 \<and> on_board (row + int k * dr) (col + int k * dc) \<and>
            b (row + int k * dr) (col + int k * dc) = (if w then WHITE else BLACK) \<and>
            (\<forall>i. 1 \<le> i \<and> i < k \<longrightarrow> on_board (row + int i * dr) (col + int i * dc) \<and>
                b (row + int i * dr) (col + int i * dc) = (if w then BLACK else WHITE))"
proof -
  let ?f = "if w then WHITE else BLACK"
  let ?e = "if w then BLACK else WHITE"
  from cap have on1: "on_board (row + dr) (col + dc)" and e1: "b (row + dr) (col + dc) = ?e"
    and h: "hit 8 b ?f (row + 2 * dr) (col + 2 * dc) dr dc"
    by (auto simp: captures_dir_def scan_steps_hit)
  from h obtain m where m: "m < 8" "on_board (row + 2 * dr + int m * dr) (col + 2 * dc + int m * dc)"
    "b (row + 2 * dr + int m * dr) (col + 2 * dc + int m * dc) = ?f"
    "\<forall>j<m. on_board (row + 2 * dr + int j * dr) (col + 2 * dc + int j * dc) \<and>
            b (row + 2 * dr + int j * dr) (col + 2 * dc + int j * dc) \<noteq> NOBODY \<and>
            b (row + 2 * dr + int j * dr) (col + 2 * dc + int j * dc) \<noteq> ?f"
    unfolding hit_def by blast
  have onk: "on_board (row + int (m + 2) * dr) (col + int (m + 2) * dc)"
    using m(2) by (simp add: algebra_simps)
  have bk: "b (row + int (m + 2) * dr) (col + int (m + 2) * dc) = ?f"
    using m(3) by (simp add: algebra_simps)
  have "on_board (row + dr + int (Suc m) * dr) (col + dc + int (Suc m) * dc)"
    using m(2) by (simp add: algebra_simps)
  from on_board_ray_bound[OF dir on1 this] have le: "m + 2 \<le> 8" by simp
  have run: "on_board (row + int i * dr) (col + int i * dc) \<and>
             b (row + int i * dr) (col + int i * dc) = ?e" if i: "1 \<le> i" "i < m + 2" for i
  proof (cases "i = 1")
    case True
    with on1 e1 show ?thesis by simp
  next
    case False
    with i have "i = (i - 2) + 2" "i - 2 < m" by simp_all
    then obtain j where j: "i = j + 2" "j < m" by blast
    from m(4)[rule_format, OF j(2)]
    have a: "on_board (row + int i * dr) (col + int i * dc)"
      "b (row + int i * dr) (col + int i * dc) \<noteq> NOBODY"
      "b (row + int i * dr) (col + int i * dc) \<noteq> ?f"
      by (simp_all add: j(1) algebra_simps)
    with valid_boardD[OF valid a(1)] show ?thesis by (auto split: if_splits)
  qed
  show ?thesis
    using le onk bk run by (intro exI[of _ "m + 2"]) simp
qed

lemma in_upto: "j \<in> set [a..b] \<longleftrightarrow> a \<le> j \<and> j \<le> b"
  by (simp only: set_upto atLeastAtMost_iff)

lemma hit_reaches_own:
  assumes dir: "(dr, dc) \<in> set DIRECTIONS" and on1: "on_board (row + dr) (col + dc)"
  shows "hit 8 b (if w then WHITE else BLACK) (row + 2 * dr) (col + 2 * dc) dr dc \<longleftrightarrow>
         reaches_own b row col dr dc w"
    (is "?L \<longleftrightarrow> ?R")
proof
  let ?f = "if w then WHITE else BLACK"
  assume ?L
  then obtain m where m: "m < 8" "on_board (row + 2 * dr + int m * dr) (col + 2 * dc + int m * dc)"
    "b (row + 2 * dr + int m * dr) (col + 2 * dc + int m * dc) = ?f"
    "\<forall>j<m. on_board (row + 2 * dr + int j * dr) (col + 2 * dc + int j * dc) \<and>
            b (row + 2 * dr + int j * dr) (col + 2 * dc + int j * dc) \<noteq> NOBODY \<and>
            b (row + 2 * dr + int j * dr) (col + 2 * dc + int j * dc) \<noteq> ?f"
    unfolding hit_def by blast
  have "on_board (row + dr + int (Suc m) * dr) (col + dc + int (Suc m) * dc)"
    using m(2) by (simp add: algebra_simps)
  from on_board_ray_bound[OF dir on1 this] have le: "m + 2 \<le> 8" by simp
  have between: "on_board (row + j * dr) (col + j * dc) \<and> b (row + j * dr) (col + j * dc) \<noteq> NOBODY"
    if j: "2 \<le> j" "j < int m + 2" for j :: int
  proof -
    from j have "j = int (nat (j - 2)) + 2" "nat (j - 2) < m" by simp_all
    then obtain j' where j': "j = int j' + 2" "j' < m" by blast
    from m(4)[rule_format, OF j'(2)] show ?thesis by (simp add: j'(1) algebra_simps)
  qed
  show ?R
    unfolding reaches_own_def
  proof (intro bexI[of _ "int m + 2"] conjI ballI impI)
    show "on_board (row + (int m + 2) * dr) (col + (int m + 2) * dc)"
      using m(2) by (simp add: algebra_simps)
    show "b (row + (int m + 2) * dr) (col + (int m + 2) * dc) = ?f"
      using m(3) by (simp add: algebra_simps)
    show "int m + 2 \<in> set [2..8]" unfolding in_upto using le by simp
  next
    fix j :: int assume "j \<in> set [2..8]" "j < int m + 2"
    then have "2 \<le> j" "j < int m + 2" unfolding in_upto by simp_all
    from between[OF this]
    show "on_board (row + j * dr) (col + j * dc)" "b (row + j * dr) (col + j * dc) \<noteq> NOBODY"
      by simp_all
  qed
next
  let ?f = "if w then WHITE else BLACK"
  let ?own = "\<lambda>m. b (row + 2 * dr + int m * dr) (col + 2 * dc + int m * dc) = ?f"
  assume ?R
  then obtain k :: int where k: "2 \<le> k" "k \<le> 8" "on_board (row + k * dr) (col + k * dc)"
    "b (row + k * dr) (col + k * dc) = ?f"
    "\<forall>j. 2 \<le> j \<and> j \<le> 8 \<longrightarrow> j < k \<longrightarrow> on_board (row + j * dr) (col + j * dc) \<and>
                  b (row + j * dr) (col + j * dc) \<noteq> NOBODY"
    unfolding reaches_own_def Bex_def Ball_def in_upto by blast
  define k' where "k' = nat (k - 2)"
  from k(1) have keq: "k = int k' + 2" by (simp add: k'_def)
  have own: "?own k'"
    using k(4) by (simp add: keq algebra_simps)
  define m where "m = (LEAST m. ?own m)"
  have m1: "?own m" unfolding m_def using own by (rule LeastI)
  have m2: "m \<le> k'" unfolding m_def using own by (rule Least_le)
  have m3: "\<not> ?own j" if "j < m" for j
    using not_less_Least[of j ?own] that unfolding m_def by blast
  have inner: "on_board (row + 2 * dr + int j * dr) (col + 2 * dc + int j * dc) \<and>
               b (row + 2 * dr + int j * dr) (col + 2 * dc + int j * dc) \<noteq> NOBODY" if "j < k'" for j
  proof -
    from that k(2) keq have "2 \<le> int j + 2 \<and> int j + 2 \<le> 8" "int j + 2 < k" by auto
    from k(5)[rule_format, OF this] show ?thesis by (simp add: algebra_simps)
  qed
  have onb: "on_board (row + 2 * dr + int j * dr) (col + 2 * dc + int j * dc)" if "j \<le> m" for j
  proof (cases "j = k'")
    case True
    then show ?thesis using k(3) by (simp add: keq algebra_simps)
  next
    case False
    with that m2 have "j < k'" by simp
    from inner[OF this] show ?thesis by simp
  qed
  show ?L
    unfolding hit_def
  proof (intro exI[of _ m] conjI allI impI)
    show "m < 8" using m2 k(2) keq by simp
    show "on_board (row + 2 * dr + int m * dr) (col + 2 * dc + int m * dc)" using onb by simp
    show "?own m" by (rule m1)
  next
    fix j assume j: "j < m"
    then have "j < k'" using m2 by simp
    from inner[OF this] j
    show "on_board (row + 2 * dr + int j * dr) (col + 2 * dc + int j * dc)"
      "b (row + 2 * dr + int j * dr) (col + 2 * dc + int j * dc) \<noteq> NOBODY" by simp_all
    show "b (row + 2 * dr + int j * dr) (col + 2 * dc + int j * dc) \<noteq> ?f" using m3 j by simp
  qed
qed

lemma run_enclosed:
  assumes dir: "(dr, dc) \<in> set DIRECTIONS" and valid: "valid_board b" and on0: "on_board row col"
    and cap: "captures_dir b row col (dr, dc) w"
  shows "run_to 8 b (row + dr) (col + dc) dr dc (if w then BLACK else WHITE) x y \<longleftrightarrow>
         enclosed b row col dr dc w x y"
    (is "?L \<longleftrightarrow> ?R")
proof
  let ?f = "if w then WHITE else BLACK"
  let ?e = "if w then BLACK else WHITE"
  assume ?L
  then obtain j where j: "j < 8" "x = row + dr + int j * dr" "y = col + dc + int j * dc"
    "\<forall>i\<le>j. on_board (row + dr + int i * dr) (col + dc + int i * dc) \<and>
            b (row + dr + int i * dr) (col + dc + int i * dc) = ?e"
    unfolding run_to_def by blast
  from captures_dir_first_own[OF dir valid cap]
  obtain k where k: "2 \<le> k" "k \<le> 8" "on_board (row + int k * dr) (col + int k * dc)"
    "b (row + int k * dr) (col + int k * dc) = ?f"
    "\<forall>i. 1 \<le> i \<and> i < k \<longrightarrow> on_board (row + int i * dr) (col + int i * dc) \<and>
         b (row + int i * dr) (col + int i * dc) = ?e"
    by blast
  have jk: "Suc j < k"
  proof (rule ccontr)
    assume "\<not> Suc j < k"
    with k(1) obtain k1 where k1: "k = Suc k1" "k1 \<le> j" by (cases k) auto
    from j(4)[rule_format, OF k1(2)]
    have "b (row + int k * dr) (col + int k * dc) = ?e"
      by (simp add: k1(1) algebra_simps)
    with k(4) show False by (auto split: if_splits)
  qed
  show ?R
    unfolding enclosed_def Bex_def Ball_def in_upto
  proof (rule exI[of _ "int k"], intro conjI allI impI)
    show "2 \<le> int k" "int k \<le> 8" using k(1,2) by simp_all
    show "on_board (row + int k * dr) (col + int k * dc)" by (rule k(3))
    show "b (row + int k * dr) (col + int k * dc) = ?f" by (rule k(4))
  next
    fix i :: int assume i: "1 \<le> i \<and> i \<le> 8" "i < int k"
    then have "1 \<le> nat i \<and> nat i < k" "i = int (nat i)" by auto
    from k(5)[rule_format, OF this(1)] this(2)
    show "b (row + i * dr) (col + i * dc) = ?e" by simp
  next
    show "\<exists>i. (1 \<le> i \<and> i \<le> 8) \<and> i < int k \<and> x = row + i * dr \<and> y = col + i * dc"
      using jk j(2,3) k(2) by (intro exI[of _ "int (Suc j)"]) (simp add: algebra_simps)
  qed
next
  let ?e = "if w then BLACK else WHITE"
  assume ?R
  then obtain k j :: int where k: "2 \<le> k" "k \<le> 8" "on_board (row + k * dr) (col + k * dc)"
    "\<forall>i. 1 \<le> i \<and> i \<le> 8 \<longrightarrow> i < k \<longrightarrow> b (row + i * dr) (col + i * dc) = ?e"
    and j: "1 \<le> j" "j < k" "x = row + j * dr" "y = col + j * dc"
    unfolding enclosed_def Bex_def Ball_def in_upto by blast
  define k' where "k' = nat k"
  have keq: "k = int k'" using k(1) by (simp add: k'_def)
  have onk: "on_board (row + int k' * dr) (col + int k' * dc)" using k(3) by (simp add: keq)
  show ?L
    unfolding run_to_def
  proof (intro exI[of _ "nat (j - 1)"] conjI allI impI)
    show "nat (j - 1) < 8" using j(1,2) k(2) by simp
    show "x = row + dr + int (nat (j - 1)) * dr" "y = col + dc + int (nat (j - 1)) * dc"
      using j by (simp_all add: algebra_simps)
  next
    fix i assume i: "i \<le> nat (j - 1)"
    then have ik: "Suc i \<le> k'" using j(1,2) keq by simp
    from on_board_convex[OF dir on0 onk ik]
    show "on_board (row + dr + int i * dr) (col + dc + int i * dc)"
      by (simp add: algebra_simps)
    from i j(1,2) k(2) have "1 \<le> int (Suc i) \<and> int (Suc i) \<le> 8" "int (Suc i) < k" by auto
    from k(4)[rule_format, OF this]
    show "b (row + dr + int i * dr) (col + dc + int i * dc) = ?e"
      by (simp add: algebra_simps)
  qed
qed

lemma count_nonzero_eq_bounds: "0 \<le> count_nonzero_eq b v \<and> count_nonzero_eq b v \<le> 64"
proof -
  have "length (filter (\<lambda>(row, col). b row col = v) cells) \<le> length cells"
    by (rule length_filter_le)
  moreover have "length cells = 64" by (simp add: cells_def)
  ultimately show ?thesis by (simp add: count_nonzero_eq_def)
qed

lemma evaluation_function_bounds: "- 64 \<le> evaluation_function b \<and> evaluation_function b \<le> 64"
  using count_nonzero_eq_bounds[of b WHITE] count_nonzero_eq_bounds[of b BLACK]
  by (simp add: evaluation_function_def)

lemma exhaustive_minimax_bounds:
  "- WIN_VAL \<le> exhaustive_minimax b w d \<and> exhaustive_minimax b w d \<le> WIN_VAL"
proof (induction b w d rule: exhaustive_minimax.induct)
  case (1 b w d)
  consider (zero) "d = 0"
    | (over) "d \<noteq> 0" "legal_moves b True = [] \<and> legal_moves b False = []"
    | (pass) "d \<noteq> 0" "\<not> (legal_moves b True = [] \<and> legal_moves b False = [])" "legal_moves b w = []"
    | (move) "d \<noteq> 0" "\<not> (legal_moves b True = [] \<and> legal_moves b False = [])" "legal_moves b w \<noteq> []"
    by blast
  then show ?case
  proof cases
    case zero
    show ?thesis
      unfolding exhaustive_minimax.simps[of b w d]
      using zero evaluation_function_bounds[of b] by simp
  next
    case over
    show ?thesis unfolding exhaustive_minimax.simps[of b w d] using over by simp
  next
    case pass
    show ?thesis unfolding exhaustive_minimax.simps[of b w d] using pass "1.IH"(1) by simp
  next
    case move
    show ?thesis
    proof (cases w)
      case True
      let ?vs = "map (\<lambda>m. exhaustive_minimax (moved b m True) False (d - 1)) (legal_moves b True)"
      have ne: "set ?vs \<noteq> {}" using move True by auto
      have "Max (set ?vs) \<in> set ?vs" using ne by (intro Max_in) auto
      then obtain m where "m \<in> set (legal_moves b True)"
        "Max (set ?vs) = exhaustive_minimax (moved b m True) False (d - 1)" by auto
      with "1.IH"(2)[of m] move True show ?thesis
        unfolding exhaustive_minimax.simps[of b w d] by simp
    next
      case False
      let ?vs = "map (\<lambda>m. exhaustive_minimax (moved b m False) True (d - 1)) (legal_moves b False)"
      have ne: "set ?vs \<noteq> {}" using move False by auto
      have "Min (set ?vs) \<in> set ?vs" using ne by (intro Min_in) auto
      then obtain m where "m \<in> set (legal_moves b False)"
        "Min (set ?vs) = exhaustive_minimax (moved b m False) True (d - 1)" by auto
      with "1.IH"(3)[of m] move False show ?thesis
        unfolding exhaustive_minimax.simps[of b w d] by simp
    qed
  qed
qed

section \<open>The search, unfolded\<close>

lemma outcome_cases:
  "outcome b = (if legal_moves b True = [] \<and> legal_moves b False = [] then find_winner b else NOBODY)"
  by (simp add: outcome_def)

lemma find_winner_cases: "find_winner b = WHITE \<or> find_winner b = BLACK \<or> find_winner b = TIE"
  by (simp add: find_winner_def Let_def)

lemma search_depth_0:
  "search (Minimax_value b w 0 alpha beta) = Some (Inr (evaluation_function b))"
  by (subst search.simps) (simp add: evaluation_function_def)

lemma search_over:
  "d \<noteq> 0 \<Longrightarrow> legal_moves b True = [] \<Longrightarrow> legal_moves b False = [] \<Longrightarrow>
   search (Minimax_value b w d alpha beta) =
     Some (Inr (if find_winner b = TIE then 0 else if find_winner b = WHITE then WIN_VAL else - WIN_VAL))"
  using find_winner_cases[of b]
  by (subst search.simps) (auto simp: check_game_over_eq outcome_cases)

lemma search_not_over:
  assumes "d \<noteq> 0" and "\<not> (legal_moves b True = [] \<and> legal_moves b False = [])"
  shows "search (Minimax_value b w d alpha beta) =
     (if w then search (Find_max_score (sys_maxsize * - 1) b w d alpha beta)
      else search (Find_min_score sys_maxsize b w d alpha beta))"
proof -
  have "outcome b = NOBODY" using assms(2) by (auto simp: outcome_cases)
  then show ?thesis
    using assms(1) by (subst search.simps) (simp add: check_game_over_eq)
qed

lemma search_find_max:
  "search (Find_max_score m b w d alpha beta) =
     (if legal_moves b True = [] then search (Minimax_value b False d alpha beta)
      else search (Max_loop m b (legal_moves b True) d alpha beta))"
  by (subst search.simps) (simp add: generate_legal_moves_eq)

lemma search_find_min:
  "search (Find_min_score m b w d alpha beta) =
     (if legal_moves b False = [] then search (Minimax_value b True d alpha beta)
      else search (Min_loop m b (legal_moves b False) d alpha beta))"
  by (subst search.simps) (simp add: generate_legal_moves_eq)

lemma search_max_loop_Nil: "search (Max_loop m b [] d alpha beta) = Some (Inr m)"
  by (subst search.simps) simp

lemma search_min_loop_Nil: "search (Min_loop m b [] d alpha beta) = Some (Inr m)"
  by (subst search.simps) simp

lemma search_max_loop_Cons:
  assumes "on_board (fst x) (snd x)"
    and "search (Minimax_value (moved b x True) False (d - 1) alpha beta) = Some (Inr score)"
  shows "search (Max_loop m b (x # xs) d alpha beta) =
     (if beta \<le> max alpha (Fin score) then Some (Inr (max m score))
      else search (Max_loop (max m score) b xs d (max alpha (Fin score)) beta))"
proof -
  have a: "(if score > m then score else m) = max m score" by (simp add: max_def)
  have b: "(if Fin score > alpha then Fin score else alpha) = max alpha (Fin score)"
    by (auto simp: max_def)
  show ?thesis
    by (subst search.simps) (simp add: play_move_eq[OF assms(1)] assms(2) a b Let_def)
qed

lemma search_min_loop_Cons:
  assumes "on_board (fst x) (snd x)"
    and "search (Minimax_value (moved b x False) True (d - 1) alpha beta) = Some (Inr score)"
  shows "search (Min_loop m b (x # xs) d alpha beta) =
     (if min beta (Fin score) \<le> alpha then Some (Inr (min m score))
      else search (Min_loop (min m score) b xs d alpha (min beta (Fin score))))"
  by (subst search.simps) (simp add: play_move_eq[OF assms(1)] assms(2) Let_def)

section \<open>Termination and soundness of the pruned search\<close>

lemma Fin_le [simp]: "Fin x \<le> Fin y \<longleftrightarrow> x \<le> y"
  by simp

lemma Fin_less [simp]: "Fin x < Fin y \<longleftrightarrow> x < y"
  by (auto simp: less_ext_def)

lemma MInf_less_Fin [simp]: "MInf < Fin x"
  by (simp add: less_ext_def)

lemma Fin_less_PInf [simp]: "Fin x < PInf"
  by (simp add: less_ext_def)

lemma max_Fin [simp]: "max (Fin x) (Fin y) = Fin (max x y)"
  by (simp add: max_def)

lemma min_Fin [simp]: "min (Fin x) (Fin y) = Fin (min x y)"
  by (simp add: min_def)

lemma max_loop_ok:
  assumes child: "node_ok n"
  shows "\<forall>x\<in>set ms. on_board (fst x) (snd x) \<Longrightarrow>
    \<exists>r. search (Max_loop m b ms (int n + 1) alpha beta) = Some (Inr r) \<and>
       m \<le> r \<and> r \<le> max m WIN_VAL \<and> (ms \<noteq> [] \<longrightarrow> - WIN_VAL \<le> r) \<and>
       (alpha < beta \<longrightarrow>
          (Fin r < beta \<longrightarrow> (\<forall>x\<in>set ms. exhaustive_minimax (moved b x True) False n \<le> r)) \<and>
          (max alpha (Fin m) < Fin r \<longrightarrow>
             (\<exists>x\<in>set ms. r \<le> exhaustive_minimax (moved b x True) False n)))"
proof (induction ms arbitrary: m alpha)
  case Nil
  show ?case by (simp add: search_max_loop_Nil)
next
  case (Cons x xs)
  let ?v = "exhaustive_minimax (moved b x True) False n"
  from Cons.prems have on: "on_board (fst x) (snd x)" and rest: "\<forall>x\<in>set xs. on_board (fst x) (snd x)"
    by simp_all
  from child obtain s where s: "search (Minimax_value (moved b x True) False (int n) alpha beta) = Some (Inr s)"
    "- WIN_VAL \<le> s" "s \<le> WIN_VAL" "alpha < beta \<longrightarrow> sound alpha beta s ?v"
    unfolding node_ok_def by blast
  have s': "search (Minimax_value (moved b x True) False (int n + 1 - 1) alpha beta) = Some (Inr s)"
    using s(1) by simp
  note step = search_max_loop_Cons[OF on s', of m xs]
  show ?case
  proof (cases "beta \<le> max alpha (Fin s)")
    case True
    have res: "search (Max_loop m b (x # xs) (int n + 1) alpha beta) = Some (Inr (max m s))"
      using step True by simp
    have snd: "\<not> Fin (max m s) < beta" if "alpha < beta"
    proof -
      from True that have "beta \<le> Fin s" by (auto simp: max_def split: if_splits)
      also have "Fin s \<le> Fin (max m s)" by simp
      finally show ?thesis by simp
    qed
    have lower: "max m s \<le> ?v" if ab: "alpha < beta" and gt: "max alpha (Fin m) < Fin (max m s)"
    proof -
      from gt have a: "alpha < Fin (max m s)" and b: "Fin m < Fin (max m s)" by simp_all
      from b have ms: "max m s = s" by (simp add: max_def split: if_splits)
      with a have "alpha < Fin s" by simp
      with s(4) ab show ?thesis by (simp add: sound_def ms)
    qed
    show ?thesis
      using res s(2,3) snd lower by (intro exI[of _ "max m s"]) auto
  next
    case False
    then have lt: "max alpha (Fin s) < beta" by (rule not_le_imp_less)
    from Cons.IH[OF rest, of "max m s" "max alpha (Fin s)"]
    obtain r where r: "search (Max_loop (max m s) b xs (int n + 1) (max alpha (Fin s)) beta) = Some (Inr r)"
      "max m s \<le> r" "r \<le> max (max m s) WIN_VAL"
      "Fin r < beta \<longrightarrow> (\<forall>x\<in>set xs. exhaustive_minimax (moved b x True) False n \<le> r)"
      "max (max alpha (Fin s)) (Fin (max m s)) < Fin r \<longrightarrow>
         (\<exists>x\<in>set xs. r \<le> exhaustive_minimax (moved b x True) False n)"
      using lt by blast
    have res: "search (Max_loop m b (x # xs) (int n + 1) alpha beta) = Some (Inr r)"
      using step False r(1) by simp
    have ab: "alpha < beta" using lt by (meson max.cobounded1 order_le_less_trans)
    have sb: "Fin s < beta" using lt by (meson max.cobounded2 order_le_less_trans)
    have vs: "?v \<le> s" using s(4) ab sb by (simp add: sound_def)
    have upper: "Fin r < beta \<Longrightarrow> \<forall>y\<in>set (x # xs). exhaustive_minimax (moved b y True) False n \<le> r"
      using r(2,4) vs by auto
    have lower: "\<exists>y\<in>set (x # xs). r \<le> exhaustive_minimax (moved b y True) False n"
      if gt: "max alpha (Fin m) < Fin r"
    proof (cases "max (max alpha (Fin s)) (Fin (max m s)) < Fin r")
      case True
      with r(5) show ?thesis by auto
    next
      case False
      note nlt = False
      from gt have ar: "alpha < Fin r" and mr: "m < r" by simp_all
      have "r \<le> s"
      proof (rule ccontr)
        assume "\<not> r \<le> s"
        then have "s < r" by simp
        with ar mr have "max (max alpha (Fin s)) (Fin (max m s)) < Fin r" by simp
        with nlt show False by blast
      qed
      with r(2) have "r = s" by simp
      with ar s(4) ab have "r \<le> ?v" by (simp add: sound_def)
      then show ?thesis by auto
    qed
    show ?thesis
      using res r(2,3) s(2,3) upper lower by (intro exI[of _ r]) auto
  qed
qed

lemma min_loop_ok:
  assumes child: "node_ok n"
  shows "\<forall>x\<in>set ms. on_board (fst x) (snd x) \<Longrightarrow>
    \<exists>r. search (Min_loop m b ms (int n + 1) alpha beta) = Some (Inr r) \<and>
       r \<le> m \<and> min m (- WIN_VAL) \<le> r \<and> (ms \<noteq> [] \<longrightarrow> r \<le> WIN_VAL) \<and>
       (alpha < beta \<longrightarrow>
          (alpha < Fin r \<longrightarrow> (\<forall>x\<in>set ms. r \<le> exhaustive_minimax (moved b x False) True n)) \<and>
          (Fin r < min beta (Fin m) \<longrightarrow>
             (\<exists>x\<in>set ms. exhaustive_minimax (moved b x False) True n \<le> r)))"
proof (induction ms arbitrary: m beta)
  case Nil
  show ?case by (simp add: search_min_loop_Nil)
next
  case (Cons x xs)
  let ?v = "exhaustive_minimax (moved b x False) True n"
  from Cons.prems have on: "on_board (fst x) (snd x)" and rest: "\<forall>x\<in>set xs. on_board (fst x) (snd x)"
    by simp_all
  from child obtain s where s: "search (Minimax_value (moved b x False) True (int n) alpha beta) = Some (Inr s)"
    "- WIN_VAL \<le> s" "s \<le> WIN_VAL" "alpha < beta \<longrightarrow> sound alpha beta s ?v"
    unfolding node_ok_def by blast
  have s': "search (Minimax_value (moved b x False) True (int n + 1 - 1) alpha beta) = Some (Inr s)"
    using s(1) by simp
  note step = search_min_loop_Cons[OF on s', of m xs]
  show ?case
  proof (cases "min beta (Fin s) \<le> alpha")
    case True
    have res: "search (Min_loop m b (x # xs) (int n + 1) alpha beta) = Some (Inr (min m s))"
      using step True by simp
    have fst: "\<not> alpha < Fin (min m s)" if "alpha < beta"
    proof -
      have "Fin (min m s) \<le> Fin s" by simp
      also from True that have "Fin s \<le> alpha" by (auto simp: min_def split: if_splits)
      finally show ?thesis by simp
    qed
    have upper: "?v \<le> min m s" if ab: "alpha < beta" and lt: "Fin (min m s) < min beta (Fin m)"
    proof -
      from lt have a: "Fin (min m s) < beta" and b: "Fin (min m s) < Fin m" by simp_all
      from b have ms: "min m s = s" by (simp add: min_def split: if_splits)
      with a have "Fin s < beta" by simp
      with s(4) ab show ?thesis by (simp add: sound_def ms)
    qed
    show ?thesis
      using res s(2,3) fst upper by (intro exI[of _ "min m s"]) auto
  next
    case False
    then have lt: "alpha < min beta (Fin s)" by (rule not_le_imp_less)
    from Cons.IH[OF rest, of "min m s" "min beta (Fin s)"]
    obtain r where r: "search (Min_loop (min m s) b xs (int n + 1) alpha (min beta (Fin s))) = Some (Inr r)"
      "r \<le> min m s" "min (min m s) (- WIN_VAL) \<le> r"
      "alpha < Fin r \<longrightarrow> (\<forall>x\<in>set xs. r \<le> exhaustive_minimax (moved b x False) True n)"
      "Fin r < min (min beta (Fin s)) (Fin (min m s)) \<longrightarrow>
         (\<exists>x\<in>set xs. exhaustive_minimax (moved b x False) True n \<le> r)"
      using lt by blast
    have res: "search (Min_loop m b (x # xs) (int n + 1) alpha beta) = Some (Inr r)"
      using step False r(1) by simp
    have ab: "alpha < beta" using lt by simp
    have sa: "alpha < Fin s" using lt by simp
    have sv: "s \<le> ?v" using s(4) ab sa by (simp add: sound_def)
    have lower: "alpha < Fin r \<Longrightarrow> \<forall>y\<in>set (x # xs). r \<le> exhaustive_minimax (moved b y False) True n"
      using r(2,4) sv by auto
    have upper: "\<exists>y\<in>set (x # xs). exhaustive_minimax (moved b y False) True n \<le> r"
      if gt: "Fin r < min beta (Fin m)"
    proof (cases "Fin r < min (min beta (Fin s)) (Fin (min m s))")
      case True
      with r(5) show ?thesis by auto
    next
      case False
      note nlt = False
      from gt have rb: "Fin r < beta" and rm: "r < m" by simp_all
      have "s \<le> r"
      proof (rule ccontr)
        assume "\<not> s \<le> r"
        then have "r < s" by simp
        with rb rm have "Fin r < min (min beta (Fin s)) (Fin (min m s))" by simp
        with nlt show False by blast
      qed
      with r(2) have "r = s" by simp
      with rb s(4) ab have "?v \<le> r" by (simp add: sound_def)
      then show ?thesis by auto
    qed
    show ?thesis
      using res r(2,3) s(2,3) lower upper by (intro exI[of _ r]) auto
  qed
qed

text \<open>A node where the side to move has a legal move, one level above \<open>n\<close>.\<close>

lemma move_node_ok:
  assumes child: "node_ok n" and moves: "legal_moves b w \<noteq> []"
  shows "\<exists>r. search (Minimax_value b w (int n + 1) alpha beta) = Some (Inr r) \<and>
        - WIN_VAL \<le> r \<and> r \<le> WIN_VAL \<and>
        (alpha < beta \<longrightarrow> sound alpha beta r (exhaustive_minimax b w (Suc n)))"
proof (cases w)
  case True
  let ?ms = "legal_moves b True"
  let ?vs = "map (\<lambda>m. exhaustive_minimax (moved b m True) False n) ?ms"
  from moves True have ne: "?ms \<noteq> []" by simp
  have on: "\<forall>x\<in>set ?ms. on_board (fst x) (snd x)"
    using legal_moves_on_board[of _ _ b True] by auto
  from max_loop_ok[OF child on, of "sys_maxsize * - 1" b alpha beta] ne
  obtain r where r: "search (Max_loop (sys_maxsize * - 1) b ?ms (int n + 1) alpha beta) = Some (Inr r)"
    "r \<le> max (sys_maxsize * - 1) WIN_VAL" "- WIN_VAL \<le> r"
    "alpha < beta \<longrightarrow>
          (Fin r < beta \<longrightarrow> (\<forall>x\<in>set ?ms. exhaustive_minimax (moved b x True) False n \<le> r)) \<and>
          (max alpha (Fin (sys_maxsize * - 1)) < Fin r \<longrightarrow>
             (\<exists>x\<in>set ?ms. r \<le> exhaustive_minimax (moved b x True) False n))"
    by blast
  have ex: "exhaustive_minimax b w (Suc n) = Max (set ?vs)"
    unfolding exhaustive_minimax.simps[of b w "Suc n"] using ne True by simp
  have res: "search (Minimax_value b w (int n + 1) alpha beta) = Some (Inr r)"
    using ne True r(1) by (simp add: search_not_over search_find_max)
  have snd: "sound alpha beta r (Max (set ?vs))" if ab: "alpha < beta"
    unfolding sound_def
  proof (intro conjI impI)
    assume "Fin r < beta"
    with r(4) ab have "\<forall>x\<in>set ?ms. exhaustive_minimax (moved b x True) False n \<le> r" by blast
    with ne show "Max (set ?vs) \<le> r" by (subst Max_le_iff) auto
  next
    assume ar: "alpha < Fin r"
    from r(3) have "Fin (sys_maxsize * - 1) < Fin r" by simp
    with ar have "max alpha (Fin (sys_maxsize * - 1)) < Fin r" by simp
    with r(4) ab obtain x where x: "x \<in> set ?ms" "r \<le> exhaustive_minimax (moved b x True) False n"
      by blast
    have "exhaustive_minimax (moved b x True) False n \<le> Max (set ?vs)"
      using x(1) by (intro Max_ge) auto
    with x(2) show "r \<le> Max (set ?vs)" by simp
  qed
  show ?thesis
    using res r(2,3) snd ex by (intro exI[of _ r]) auto
next
  case False
  let ?ms = "legal_moves b False"
  let ?vs = "map (\<lambda>m. exhaustive_minimax (moved b m False) True n) ?ms"
  from moves False have ne: "?ms \<noteq> []" by simp
  have on: "\<forall>x\<in>set ?ms. on_board (fst x) (snd x)"
    using legal_moves_on_board[of _ _ b False] by auto
  from min_loop_ok[OF child on, of sys_maxsize b alpha beta] ne
  obtain r where r: "search (Min_loop sys_maxsize b ?ms (int n + 1) alpha beta) = Some (Inr r)"
    "min sys_maxsize (- WIN_VAL) \<le> r" "r \<le> WIN_VAL"
    "alpha < beta \<longrightarrow>
          (alpha < Fin r \<longrightarrow> (\<forall>x\<in>set ?ms. r \<le> exhaustive_minimax (moved b x False) True n)) \<and>
          (Fin r < min beta (Fin sys_maxsize) \<longrightarrow>
             (\<exists>x\<in>set ?ms. exhaustive_minimax (moved b x False) True n \<le> r))"
    by blast
  have ex: "exhaustive_minimax b w (Suc n) = Min (set ?vs)"
    unfolding exhaustive_minimax.simps[of b w "Suc n"] using ne False by simp
  have res: "search (Minimax_value b w (int n + 1) alpha beta) = Some (Inr r)"
    using ne False r(1) by (simp add: search_not_over search_find_min)
  have snd: "sound alpha beta r (Min (set ?vs))" if ab: "alpha < beta"
    unfolding sound_def
  proof (intro conjI impI)
    assume ar: "alpha < Fin r"
    with r(4) ab have "\<forall>x\<in>set ?ms. r \<le> exhaustive_minimax (moved b x False) True n" by blast
    with ne show "r \<le> Min (set ?vs)" by (subst Min_ge_iff) auto
  next
    assume rb: "Fin r < beta"
    from r(3) have "Fin r < Fin sys_maxsize" by simp
    with rb have "Fin r < min beta (Fin sys_maxsize)" by simp
    with r(4) ab obtain x where x: "x \<in> set ?ms" "exhaustive_minimax (moved b x False) True n \<le> r"
      by blast
    have "Min (set ?vs) \<le> exhaustive_minimax (moved b x False) True n"
      using x(1) by (intro Min_le) auto
    with x(2) show "Min (set ?vs) \<le> r" by simp
  qed
  show ?thesis
    using res r(2,3) snd ex by (intro exI[of _ r]) auto
qed

text \<open>
  A forced pass: the call for the side that cannot move is the call for the other side,
  at the same depth and with the same window.
\<close>

lemma search_pass:
  assumes "d \<noteq> 0" and "legal_moves b w = []" and "legal_moves b (\<not> w) \<noteq> []"
  shows "search (Minimax_value b w d alpha beta) = search (Minimax_value b (\<not> w) d alpha beta)"
proof -
  from assms(2,3) have "\<not> (legal_moves b True = [] \<and> legal_moves b False = [])"
    by (cases w) auto
  with assms show ?thesis
    by (cases w) (simp_all add: search_not_over search_find_max search_find_min)
qed

lemma node_ok_all: "node_ok n"
proof (induction n)
  case 0
  show ?case
    unfolding node_ok_def
  proof (intro allI)
    fix b w alpha beta
    have "search (Minimax_value b w (int 0) alpha beta) = Some (Inr (evaluation_function b))"
      by (simp add: search_depth_0)
    moreover have "exhaustive_minimax b w 0 = evaluation_function b"
      by (simp add: exhaustive_minimax.simps[of b w 0])
    ultimately show "\<exists>r. search (Minimax_value b w (int 0) alpha beta) = Some (Inr r) \<and>
        - WIN_VAL \<le> r \<and> r \<le> WIN_VAL \<and>
        (alpha < beta \<longrightarrow> sound alpha beta r (exhaustive_minimax b w 0))"
      using evaluation_function_bounds[of b] by (simp add: sound_def)
  qed
next
  case (Suc n)
  show ?case
    unfolding node_ok_def
  proof (intro allI)
    fix b w alpha beta
    let ?goal = "\<exists>r. search (Minimax_value b w (int (Suc n)) alpha beta) = Some (Inr r) \<and>
        - WIN_VAL \<le> r \<and> r \<le> WIN_VAL \<and>
        (alpha < beta \<longrightarrow> sound alpha beta r (exhaustive_minimax b w (Suc n)))"
    have d: "int (Suc n) = int n + 1" "int (Suc n) \<noteq> 0" by simp_all
    consider (over) "legal_moves b True = [] \<and> legal_moves b False = []"
      | (pass) "legal_moves b w = []" "legal_moves b (\<not> w) \<noteq> []"
      | (move) "legal_moves b w \<noteq> []"
      by (cases w) auto
    then show ?goal
    proof cases
      case over
      then have "search (Minimax_value b w (int (Suc n)) alpha beta) =
          Some (Inr (if find_winner b = TIE then 0 else if find_winner b = WHITE then WIN_VAL else - WIN_VAL))"
        using d(2) by (simp add: search_over)
      moreover have "exhaustive_minimax b w (Suc n) =
          (if find_winner b = TIE then 0 else if find_winner b = WHITE then WIN_VAL else - WIN_VAL)"
        unfolding exhaustive_minimax.simps[of b w "Suc n"] using over by simp
      ultimately show ?thesis by (simp add: sound_def)
    next
      case pass
      have "search (Minimax_value b w (int (Suc n)) alpha beta) =
            search (Minimax_value b (\<not> w) (int (Suc n)) alpha beta)"
        using d(2) pass by (rule search_pass)
      moreover have "exhaustive_minimax b w (Suc n) = exhaustive_minimax b (\<not> w) (Suc n)"
        unfolding exhaustive_minimax.simps[of b w "Suc n"] using pass by (cases w) auto
      ultimately show ?thesis
        using move_node_ok[OF Suc pass(2), of alpha beta] unfolding d(1) by simp
    next
      case move
      then show ?thesis
        using move_node_ok[OF Suc move, of alpha beta] unfolding d(1) by simp
    qed
  qed
qed

section \<open>Soundness of the strategy check\<close>

lemma legal_moves_iff:
  "(r, c) \<in> set (legal_moves b w) \<longleftrightarrow> on_board r c \<and> b r c = NOBODY \<and> captures_any b r c w"
  by (auto simp: legal_moves_def set_cells)

lemma exhaustive_minimax_Max:
  assumes "d \<noteq> 0" and "legal_moves b True \<noteq> []"
  shows "exhaustive_minimax b True d =
     Max (set (map (\<lambda>m. exhaustive_minimax (moved b m True) False (d - 1)) (legal_moves b True)))"
  unfolding exhaustive_minimax.simps[of b True d] using assms by simp

lemma exhaustive_minimax_Min:
  assumes "d \<noteq> 0" and "legal_moves b False \<noteq> []"
  shows "exhaustive_minimax b False d =
     Min (set (map (\<lambda>m. exhaustive_minimax (moved b m False) True (d - 1)) (legal_moves b False)))"
  unfolding exhaustive_minimax.simps[of b False d] using assms by simp

lemma exhaustive_minimax_over:
  assumes "d \<noteq> 0" and "outcome b \<noteq> NOBODY"
  shows "exhaustive_minimax b w d =
     (if outcome b = TIE then 0 else if outcome b = WHITE then WIN_VAL else - WIN_VAL)"
proof -
  from assms(2) have "legal_moves b True = [] \<and> legal_moves b False = []" "outcome b = find_winner b"
    by (auto simp: outcome_cases split: if_splits)
  then show ?thesis
    unfolding exhaustive_minimax.simps[of b w d] using assms(1) by simp
qed

lemma holds_sound:
  "holds upper c b w d s \<Longrightarrow> within upper (exhaustive_minimax b w d) c"
  "holds_all upper c b w d ms ss \<Longrightarrow> (\<forall>m\<in>set ms. on_board (fst m) (snd m)) \<Longrightarrow>
     (\<forall>m\<in>set ms. within upper (exhaustive_minimax (moved b m w) (\<not> w) (d - 1)) c)"
proof (induction upper c b w d s and upper c b w d ms ss rule: holds_holds_all.induct)
  case (1 upper c b w d)
  show ?case
  proof (cases "d = 0")
    case True
    with 1 show ?thesis by (simp add: exhaustive_minimax.simps[of b w 0])
  next
    case False
    with 1 have g: "outcome b \<noteq> NOBODY"
      by (auto simp: check_game_over_eq split: if_splits)
    from 1 False find_winner_cases[of b] show ?thesis
      by (auto simp: check_game_over_eq exhaustive_minimax_over[OF False g] outcome_cases
          split: if_splits)
  qed
next
  case (2 upper c b w d m s)
  from "2.prems" have c: "d \<noteq> 0" "w \<noteq> upper" "on_board (fst m) (snd m)" "b (fst m) (snd m) = NOBODY"
    "can_capture b (fst m) (snd m) w = Some True"
    by (auto split: if_splits)
  from c(3,4,5) have mem: "m \<in> set (legal_moves b w)"
    using legal_moves_iff[of "fst m" "snd m" b w] by (simp add: can_capture_eq)
  from "2.prems" c have h: "holds upper c (moved b m w) (\<not> w) (d - 1) s"
    by (simp add: play_move_eq)
  have "within upper (exhaustive_minimax (moved b m w) (\<not> w) (d - 1)) c"
    using "2.IH"[of "Inr (moved b m w)" "moved b m w"] c h "2.prems"
    by (simp add: play_move_eq)
  then have child: "within upper (exhaustive_minimax (moved b m w) (\<not> w) (d - 1)) c" .
  from mem have ne: "legal_moves b w \<noteq> []" by auto
  show ?case
  proof (cases w)
    case True
    let ?vs = "map (\<lambda>m. exhaustive_minimax (moved b m True) False (d - 1)) (legal_moves b True)"
    from True c(2) have up: "\<not> upper" by simp
    have "exhaustive_minimax (moved b m True) False (d - 1) \<in> set ?vs" using mem True by auto
    then have "exhaustive_minimax (moved b m True) False (d - 1) \<le> Max (set ?vs)" by simp
    with child True up show ?thesis
      using exhaustive_minimax_Max[OF c(1), of b] ne by (simp add: within_def)
  next
    case False
    let ?vs = "map (\<lambda>m. exhaustive_minimax (moved b m False) True (d - 1)) (legal_moves b False)"
    from False c(2) have up: "upper" by simp
    have "exhaustive_minimax (moved b m False) True (d - 1) \<in> set ?vs" using mem False by auto
    then have "Min (set ?vs) \<le> exhaustive_minimax (moved b m False) True (d - 1)" by simp
    with child False up show ?thesis
      using exhaustive_minimax_Min[OF c(1), of b] ne by (simp add: within_def)
  qed
next
  case (3 upper c b w d ss)
  from "3.prems" have c: "d \<noteq> 0" "w = upper" "legal_moves b w \<noteq> []"
    "holds_all upper c b w d (legal_moves b w) ss"
    by (auto simp: generate_legal_moves_eq split: if_splits)
  have on: "\<forall>m\<in>set (legal_moves b w). on_board (fst m) (snd m)"
    using legal_moves_on_board[of _ _ b w] by auto
  have all: "\<forall>m\<in>set (legal_moves b w). within upper (exhaustive_minimax (moved b m w) (\<not> w) (d - 1)) c"
    using "3.IH"[of "legal_moves b w"] c on by (simp add: generate_legal_moves_eq)
  show ?case
  proof (cases w)
    case True
    let ?vs = "map (\<lambda>m. exhaustive_minimax (moved b m True) False (d - 1)) (legal_moves b True)"
    from True c(2) have up: "upper" by simp
    have "Max (set ?vs) \<le> c"
      using all True up c(3) by (subst Max_le_iff) (auto simp: within_def)
    with True up show ?thesis
      using exhaustive_minimax_Max[OF c(1), of b] c(3) by (simp add: within_def)
  next
    case False
    let ?vs = "map (\<lambda>m. exhaustive_minimax (moved b m False) True (d - 1)) (legal_moves b False)"
    from False c(2) have up: "\<not> upper" by simp
    have "c \<le> Min (set ?vs)"
      using all False up c(3) by (subst Min_ge_iff) (auto simp: within_def)
    with False up show ?thesis
      using exhaustive_minimax_Min[OF c(1), of b] c(3) by (simp add: within_def)
  qed
next
  case (4 upper c b w d)
  show ?case by simp
next
  case (5 upper c b w d m ms s ss)
  from "5.prems"(2) have on: "on_board (fst m) (snd m)" "\<forall>m\<in>set ms. on_board (fst m) (snd m)"
    by simp_all
  from "5.prems"(1) on(1) have h: "holds upper c (moved b m w) (\<not> w) (d - 1) s"
    "holds_all upper c b w d ms ss"
    by (auto simp: play_move_eq split: if_splits)
  have a: "within upper (exhaustive_minimax (moved b m w) (\<not> w) (d - 1)) c"
    using "5.IH"(1)[of "Inr (moved b m w)" "moved b m w"] on(1) h(1) by (simp add: play_move_eq)
  have b: "\<forall>m\<in>set ms. within upper (exhaustive_minimax (moved b m w) (\<not> w) (d - 1)) c"
    using "5.IH"(2)[of "Inr (moved b m w)" "moved b m w"] on h by (simp add: play_move_eq)
  from a b show ?case by simp
next
  case (6 upper c b w d s ss)
  then show ?case by simp
next
  case (7 upper c b w d m ms)
  then show ?case by simp
qed

section \<open>The root selection, unfolded\<close>

lemma minimax_value_exhaustive:
  "minimax_value b w (int d) MInf PInf = Some (Inr (exhaustive_minimax b w d))"
proof -
  have open_window: "MInf < PInf" by (simp add: less_ext_def)
  from node_ok_all[of d] obtain r where
    r: "search (Minimax_value b w (int d) MInf PInf) = Some (Inr r)"
      "sound MInf PInf r (exhaustive_minimax b w d)"
    unfolding node_ok_def using open_window by blast
  from r(2) have "r = exhaustive_minimax b w d" by (simp add: sound_def)
  with r(1) show ?thesis by (simp add: minimax_value_def)
qed

lemma minimax_value_demo:
  "minimax_value b w DEMO_SEARCH_DEPTH MInf PInf = Some (Inr (exhaustive_minimax b w 5))"
  using minimax_value_exhaustive[of b w 5] by simp

lemma best_move_loop_Cons:
  "on_board (fst m) (snd m) \<Longrightarrow>
   best_move_loop b (m # rest) best_val best_move =
     (if Fin (exhaustive_minimax (moved b m True) True 5) > best_val
      then best_move_loop b rest (Fin (exhaustive_minimax (moved b m True) True 5)) (Some m)
      else best_move_loop b rest best_val best_move)"
  by (simp add: play_move_eq minimax_value_demo)

lemma claimed_best_move_loop_Cons:
  "on_board (fst m) (snd m) \<Longrightarrow>
   claimed_best_move_loop b (m # rest) best_val best_move =
     (if Fin (exhaustive_minimax (moved b m True) False 5) > best_val
      then claimed_best_move_loop b rest (Fin (exhaustive_minimax (moved b m True) False 5)) (Some m)
      else claimed_best_move_loop b rest best_val best_move)"
  by (simp add: play_move_eq minimax_value_demo)

lemma best_move_loop_keep:
  "\<forall>m\<in>set ms. on_board (fst m) (snd m) \<and> exhaustive_minimax (moved b m True) True 5 \<le> v \<Longrightarrow>
   best_move_loop b ms (Fin v) best_move = Some (Inr best_move)"
proof (induction ms)
  case Nil
  show ?case by simp
next
  case (Cons m ms)
  then show ?case by (simp add: best_move_loop_Cons del: best_move_loop.simps)
qed

lemma claimed_best_move_loop_keep:
  "\<forall>m\<in>set ms. on_board (fst m) (snd m) \<and> exhaustive_minimax (moved b m True) False 5 \<le> v \<Longrightarrow>
   claimed_best_move_loop b ms (Fin v) best_move = Some (Inr best_move)"
proof (induction ms)
  case Nil
  show ?case by simp
next
  case (Cons m ms)
  then show ?case by (simp add: claimed_best_move_loop_Cons del: claimed_best_move_loop.simps)
qed

lemma claimed_best_move_loop_below:
  "\<forall>m\<in>set ps. on_board (fst m) (snd m) \<and> exhaustive_minimax (moved b m True) False 5 < v \<Longrightarrow>
   best_val < Fin v \<Longrightarrow>
   \<exists>best_val' best_move'. best_val' < Fin v \<and>
     claimed_best_move_loop b (ps @ rest) best_val best_move =
     claimed_best_move_loop b rest best_val' best_move'"
proof (induction ps arbitrary: best_val best_move)
  case Nil
  then show ?case by auto
next
  case (Cons m ps)
  let ?x = "exhaustive_minimax (moved b m True) False 5"
  from Cons.prems have m: "on_board (fst m) (snd m)" "?x < v"
    and ps: "\<forall>m\<in>set ps. on_board (fst m) (snd m) \<and> exhaustive_minimax (moved b m True) False 5 < v"
    by simp_all
  show ?case
  proof (cases "Fin ?x > best_val")
    case True
    from m(2) have "Fin ?x < Fin v" by simp
    from Cons.IH[OF ps this, of "Some m"] True m(1) show ?thesis
      by (simp add: claimed_best_move_loop_Cons del: claimed_best_move_loop.simps)
  next
    case False
    from Cons.IH[OF ps Cons.prems(2), of best_move] False m(1) show ?thesis
      by (simp add: claimed_best_move_loop_Cons del: claimed_best_move_loop.simps)
  qed
qed

text \<open>The move the source selects when the first legal move is worth \<open>WIN_VAL\<close> to it.\<close>

lemma play_best_move_first:
  assumes "legal_moves b True = m # rest"
    and "WIN_VAL \<le> exhaustive_minimax (moved b m True) True 5"
  shows "play_best_move b = Some (Inr (Some m))"
proof -
  have on: "\<forall>x\<in>set (m # rest). on_board (fst x) (snd x)"
    using legal_moves_on_board[of _ _ b True] assms(1) by auto
  have v: "exhaustive_minimax (moved b m True) True 5 = WIN_VAL"
    using assms(2) exhaustive_minimax_bounds[of "moved b m True" True 5] by simp
  have "\<forall>x\<in>set rest. on_board (fst x) (snd x) \<and> exhaustive_minimax (moved b x True) True 5 \<le> WIN_VAL"
    using on exhaustive_minimax_bounds by simp
  then have "best_move_loop b rest (Fin WIN_VAL) (Some m) = Some (Inr (Some m))"
    by (rule best_move_loop_keep)
  moreover have "best_move_loop b (m # rest) MInf None = best_move_loop b rest (Fin WIN_VAL) (Some m)"
    using on by (simp add: best_move_loop_Cons v del: best_move_loop.simps)
  ultimately show ?thesis
    by (simp add: play_best_move_def generate_legal_moves_eq assms(1) del: best_move_loop.simps)
qed

text \<open>
  The move the selection of the specification makes: the first legal move of greatest value,
  the values being those of the boards after the moves with Dark to move.
\<close>

lemma claimed_best_move_first_max:
  assumes "legal_moves b True = ps @ m # rest"
    and "\<forall>x\<in>set ps. exhaustive_minimax (moved b x True) False 5 < exhaustive_minimax (moved b m True) False 5"
    and "\<forall>x\<in>set rest. exhaustive_minimax (moved b x True) False 5 \<le> exhaustive_minimax (moved b m True) False 5"
  shows "claimed_best_move b = Some (Inr (Some m))"
proof -
  let ?v = "exhaustive_minimax (moved b m True) False 5"
  have on: "\<forall>x\<in>set (ps @ m # rest). on_board (fst x) (snd x)"
    using legal_moves_on_board[of _ _ b True] assms(1) by auto
  have "\<forall>x\<in>set ps. on_board (fst x) (snd x) \<and> exhaustive_minimax (moved b x True) False 5 < ?v"
    using on assms(2) by simp
  from claimed_best_move_loop_below[OF this, of MInf "m # rest" None]
  obtain best_val' best_move' where
    s: "best_val' < Fin ?v"
      "claimed_best_move_loop b (ps @ m # rest) MInf None =
       claimed_best_move_loop b (m # rest) best_val' best_move'"
    by auto
  have "claimed_best_move_loop b (m # rest) best_val' best_move' =
        claimed_best_move_loop b rest (Fin ?v) (Some m)"
    using on s(1) by (simp add: claimed_best_move_loop_Cons del: claimed_best_move_loop.simps)
  moreover have "claimed_best_move_loop b rest (Fin ?v) (Some m) = Some (Inr (Some m))"
    using on assms(3) by (intro claimed_best_move_loop_keep) simp
  ultimately show ?thesis
    by (simp add: claimed_best_move_def generate_legal_moves_eq assms(1) s(2)
        del: claimed_best_move_loop.simps)
qed

section \<open>The game after four moves\<close>

text \<open>The legal moves on the boards of the game, and the board \<open>opening_4\<close> cell by cell.\<close>

lemma opening_4_rows:
  "map (\<lambda>row. map (opening_4 row) [0..7]) [0..7] =
     [[0, 0, 0, 0, 0, 0, 0, 0],
      [0, 0, 1, - 1, 0, 0, 0, 0],
      [0, 0, 0, - 1, 1, 0, 0, 0],
      [0, 0, 0, - 1, 1, 0, 0, 0],
      [0, 0, 0, - 1, 1, 0, 0, 0],
      [0, 0, 0, 0, 0, 0, 0, 0],
      [0, 0, 0, 0, 0, 0, 0, 0],
      [0, 0, 0, 0, 0, 0, 0, 0]]"
  by code_simp

lemma starting_board_light: "generate_legal_moves starting_board True = Some [(2, 4), (3, 5), (4, 2), (5, 3)]"
  by code_simp

lemma opening_1_dark: "generate_legal_moves opening_1 False = Some [(2, 3), (2, 5), (4, 5)]"
  by code_simp

lemma opening_2_light:
  "generate_legal_moves opening_2 True = Some [(1, 2), (2, 2), (3, 2), (4, 2), (5, 2)]"
  by code_simp

lemma opening_3_dark:
  "generate_legal_moves opening_3 False = Some [(1, 3), (1, 5), (2, 5), (3, 5), (4, 5), (5, 5)]"
  by code_simp

lemma opening_4_light:
  "generate_legal_moves opening_4 True = Some [(0, 2), (1, 4), (2, 2), (3, 2), (4, 2), (5, 2)]"
  by code_simp

lemma opening_1_win: "holds False WIN_VAL (moved starting_board (2, 4) True) True 5 (Pick (4, 2) Stop)"
  by code_simp

lemma opening_3_win: "holds False WIN_VAL (moved opening_2 (1, 2) True) True 5 (Pick (4, 2) Stop)"
  by code_simp

lemma opening_5_win: "holds False WIN_VAL (moved opening_4 (0, 2) True) True 5 (Pick (5, 3) Stop)"
  by code_simp

lemma dark_after_0_2_holds: "holds True (- 2) (moved opening_4 (0, 2) True) False 5 dark_after_0_2"
  by code_simp

lemma light_after_0_2_holds: "holds False (- 2) (moved opening_4 (0, 2) True) False 5 light_after_0_2"
  by code_simp

lemma dark_after_1_4_holds: "holds True (- 1) (moved opening_4 (1, 4) True) False 5 dark_after_1_4"
  by code_simp

lemma dark_after_2_2_holds: "holds True (- 1) (moved opening_4 (2, 2) True) False 5 dark_after_2_2"
  by code_simp

lemma dark_after_3_2_holds: "holds True (- 1) (moved opening_4 (3, 2) True) False 5 dark_after_3_2"
  by code_simp

lemma light_after_4_2_holds: "holds False 0 (moved opening_4 (4, 2) True) False 5 light_after_4_2"
  by code_simp

lemma dark_after_4_2_holds: "holds True 0 (moved opening_4 (4, 2) True) False 5 dark_after_4_2"
  by code_simp

lemma dark_after_5_2_holds: "holds True 0 (moved opening_4 (5, 2) True) False 5 dark_after_5_2"
  by code_simp

section \<open>The claims\<close>

subsection \<open>C6: end of the game and its outcome\<close>

text \<open>
  Claim C6. For every board, \<open>check_game_over\<close> returns an outcome other than \<open>NOBODY\<close>
  if and only if the legal-move list is empty for Light and empty for Dark; in that case
  the outcome is decided by the piece counts alone: \<open>WHITE\<close> when there are strictly more
  Light pieces, \<open>BLACK\<close> when there are strictly more Dark pieces, \<open>TIE\<close> when the counts
  are equal. (None of \<open>WHITE\<close>, \<open>BLACK\<close>, \<open>TIE\<close> is \<open>NOBODY\<close>.)
\<close>

theorem check_game_over_outcome:
  "check_game_over board =
     Some (if generate_legal_moves board True = Some [] \<and> generate_legal_moves board False = Some []
           then (if count_nonzero_eq board WHITE > count_nonzero_eq board BLACK then WHITE
                 else if count_nonzero_eq board WHITE < count_nonzero_eq board BLACK then BLACK
                 else TIE)
           else NOBODY)"
  by (simp add: check_game_over_eq outcome_def generate_legal_moves_eq find_winner_def Let_def)

theorem check_game_over_outcome_witness:
  "check_game_over empty_board = Some TIE \<and> check_game_over starting_board = Some NOBODY"
proof -
  have a: "generate_legal_moves empty_board True = Some []" by code_simp
  have b: "generate_legal_moves empty_board False = Some []" by code_simp
  have c: "count_nonzero_eq empty_board WHITE = 0" "count_nonzero_eq empty_board BLACK = 0"
    by code_simp+
  have d: "generate_legal_moves starting_board True \<noteq> Some []" by code_simp
  show ?thesis
    using check_game_over_outcome[of empty_board] check_game_over_outcome[of starting_board]
    by (simp add: a b c d)
qed

subsection \<open>C8: the starting position\<close>

text \<open>
  Claim C8, as stated: \<open>starting_board\<close> is empty except Light at (3,3) and (4,4) and Dark
  at (3,4) and (4,3), and the legal moves of Light on it are (2,3), (3,2), (4,5), (5,4).
  The board is as claimed, but the four moves listed are those of Dark: the legal moves
  of Light are (2,4), (3,5), (4,2), (5,3).
\<close>

theorem starting_board_light_moves_counterexample:
  "generate_legal_moves starting_board True \<noteq> Some [(2, 3), (3, 2), (4, 5), (5, 4)]"
  by code_simp

text \<open>
  Claim C8, amended: \<open>starting_board\<close> is empty except Light at (3,3) and (4,4) and Dark
  at (3,4) and (4,3); on it the legal-move enumeration yields exactly (2,4), (3,5), (4,2),
  (5,3) for Light, and exactly (2,3), (3,2), (4,5), (5,4) for Dark.
\<close>

theorem starting_board_moves:
  "(\<forall>row col. starting_board row col =
      (if (row, col) = (3, 3) \<or> (row, col) = (4, 4) then WHITE
       else if (row, col) = (3, 4) \<or> (row, col) = (4, 3) then BLACK
       else NOBODY)) \<and>
   generate_legal_moves starting_board True = Some [(2, 4), (3, 5), (4, 2), (5, 3)] \<and>
   generate_legal_moves starting_board False = Some [(2, 3), (3, 2), (4, 5), (5, 4)]"
proof -
  have "generate_legal_moves starting_board True = Some [(2, 4), (3, 5), (4, 2), (5, 3)]"
    by code_simp
  moreover have "generate_legal_moves starting_board False = Some [(2, 3), (3, 2), (4, 5), (5, 4)]"
    by code_simp
  ultimately show ?thesis by (simp add: starting_board_def Let_def)
qed

theorem starting_board_moves_witness:
  "map_option length (generate_legal_moves starting_board True) = Some 4"
  using starting_board_moves by simp

subsection \<open>C3: the capture test in one direction\<close>

text \<open>
  Claim C3. For every valid board, every cell, every one of the 8 directions and every
  side, \<open>captures_in_dir\<close> returns false if the adjacent cell in that direction is off the
  board, empty, or holds the mover's own colour; otherwise it returns true if and only
  if, stepping further along the direction, a cell of the mover's colour is reached
  before any empty cell and before leaving the board.
\<close>

theorem captures_in_dir_spec:
  assumes dir: "(dr, dc) \<in> set DIRECTIONS" and valid: "valid_board board"
  shows "captures_in_dir board row dr col dc white_turn =
     Some (if \<not> on_board (row + dr) (col + dc) \<or>
              board (row + dr) (col + dc) = NOBODY \<or>
              board (row + dr) (col + dc) = (if white_turn then WHITE else BLACK)
           then False
           else reaches_own board row col dr dc white_turn)"
proof (cases "on_board (row + dr) (col + dc)")
  case False
  then show ?thesis by (simp add: captures_in_dir_eq[OF dir] captures_dir_def)
next
  case True
  from valid_boardD[OF valid True] hit_reaches_own[OF dir True, of board white_turn] True
  show ?thesis
    by (auto simp: captures_in_dir_eq[OF dir] captures_dir_def scan_steps_hit)
qed

text \<open>
  Two instances: on the starting board white captures downwards from (2,4); on a row
  that reads W B - B from column 0, white at column 4 does not capture to the left,
  since the run is interrupted by the empty cell at column 2.
\<close>

theorem captures_in_dir_spec_witness:
  "captures_in_dir starting_board 2 1 4 0 True = Some True \<and>
   captures_in_dir gap_board 0 0 4 (- 1) True = Some False"
proof -
  have d: "(1, 0) \<in> set DIRECTIONS" "(0, - 1) \<in> set DIRECTIONS" by (simp_all add: DIRECTIONS_def)
  have v: "valid_board starting_board" "valid_board gap_board"
    by (simp_all add: valid_board_def cells_def starting_board_def gap_board_def)
  have r: "(if \<not> on_board (2 + 1) (4 + 0) \<or> starting_board (2 + 1) (4 + 0) = NOBODY \<or>
               starting_board (2 + 1) (4 + 0) = (if True then WHITE else BLACK)
            then False else reaches_own starting_board 2 4 1 0 True) = True"
    by (simp add: reaches_own_def starting_board_def on_board_def)
  have g: "(if \<not> on_board (0 + 0) (4 + - 1) \<or> gap_board (0 + 0) (4 + - 1) = NOBODY \<or>
               gap_board (0 + 0) (4 + - 1) = (if True then WHITE else BLACK)
            then False else reaches_own gap_board 0 4 0 (- 1) True) = False"
    by (simp add: reaches_own_def gap_board_def on_board_def)
  show ?thesis
    using captures_in_dir_spec[OF d(1) v(1), of 2 4 True]
      captures_in_dir_spec[OF d(2) v(2), of 0 4 True]
    unfolding r g by simp
qed

subsection \<open>C2: the board after a move\<close>

text \<open>
  Claim C2. For every valid board, every target cell of the board and every side,
  \<open>play_move\<close> returns a board that equals the input board at every cell except that the
  target cell holds the mover's side and that, in each of the 8 directions in which the
  capture test holds, the cells of the contiguous run of opposing pieces between the
  target and the first enclosing cell of the mover's colour hold the mover's side. So
  for a single run of length \<open>k\<close> exactly those \<open>k\<close> cells and the target change. The
  input board is a value of the model and is the same after the call.
\<close>

theorem play_move_frame:
  assumes valid: "valid_board board" and on0: "on_board row col"
  shows "\<exists>new_board. play_move board (row, col) white_turn = Some (Inr new_board) \<and>
     (\<forall>x y. new_board x y =
        (if x = row \<and> y = col then (if white_turn then WHITE else BLACK)
         else if \<exists>(dr, dc)\<in>set DIRECTIONS.
                   captures_in_dir board row dr col dc white_turn = Some True \<and>
                   enclosed board row col dr dc white_turn x y
         then (if white_turn then WHITE else BLACK)
         else board x y))"
proof -
  let ?e = "if white_turn then BLACK else WHITE"
  have eq: "(captures_dir board row col d white_turn \<and>
             run_to 8 board (row + fst d) (col + snd d) (fst d) (snd d) ?e x y) \<longleftrightarrow>
            (case d of (dr, dc) \<Rightarrow>
               captures_in_dir board row dr col dc white_turn = Some True \<and>
               enclosed board row col dr dc white_turn x y)"
    if d: "d \<in> set DIRECTIONS" for d x y
  proof -
    obtain dr dc where d2: "d = (dr, dc)" by (cases d)
    from d d2 have dir: "(dr, dc) \<in> set DIRECTIONS" by simp
    show ?thesis
      using run_enclosed[OF dir valid on0, of white_turn x y]
      by (auto simp: d2 captures_in_dir_eq[OF dir])
  qed
  have ex: "(\<exists>d\<in>set DIRECTIONS. captures_dir board row col d white_turn \<and>
             run_to 8 board (row + fst d) (col + snd d) (fst d) (snd d) ?e x y) \<longleftrightarrow>
        (\<exists>(dr, dc)\<in>set DIRECTIONS.
               captures_in_dir board row dr col dc white_turn = Some True \<and>
               enclosed board row col dr dc white_turn x y)" for x y
    by (intro bex_cong refl) (rule eq)
  have "moved board (row, col) white_turn x y =
        (if x = row \<and> y = col then (if white_turn then WHITE else BLACK)
         else if \<exists>(dr, dc)\<in>set DIRECTIONS.
                   captures_in_dir board row dr col dc white_turn = Some True \<and>
                   enclosed board row col dr dc white_turn x y
         then (if white_turn then WHITE else BLACK)
         else board x y)" for x y
    unfolding moved_char ex ..
  moreover have "play_move board (row, col) white_turn = Some (Inr (moved board (row, col) white_turn))"
    using on0 by (simp add: play_move_eq)
  ultimately show ?thesis by blast
qed

text \<open>
  An instance with a single run of length 2: row 0 reads - B B W from column 0 and
  white plays (0,0). Exactly the target and the two black cells change.
\<close>

lemma run_board_flips:
  "(\<exists>(dr, dc)\<in>set DIRECTIONS. captures_in_dir run_board 0 dr 0 dc True = Some True \<and>
       enclosed run_board 0 0 dr dc True x y) \<longleftrightarrow> x = 0 \<and> (y = 1 \<or> y = 2)"
  by (simp add: DIRECTIONS_def captures_in_dir_def scan_loop.simps enclosed_def run_board_def
      on_board_def) arith

theorem play_move_frame_witness:
  "\<exists>new_board. play_move run_board (0, 0) True = Some (Inr new_board) \<and>
     new_board 0 0 = WHITE \<and> new_board 0 1 = WHITE \<and> new_board 0 2 = WHITE \<and>
     new_board 0 3 = WHITE \<and> new_board 0 4 = NOBODY \<and> new_board 1 0 = NOBODY \<and>
     new_board 1 1 = NOBODY \<and> run_board 0 0 = NOBODY \<and> run_board 0 1 = BLACK"
proof -
  have v: "valid_board run_board" by (simp add: valid_board_def cells_def run_board_def)
  have o: "on_board 0 0" by (simp add: on_board_def)
  have "\<exists>new_board. play_move run_board (0, 0) True = Some (Inr new_board) \<and>
     (\<forall>x y. new_board x y = (if x = 0 \<and> y = 0 then WHITE
          else if x = 0 \<and> (y = 1 \<or> y = 2) then WHITE else run_board x y))"
    using play_move_frame[OF v o, of True] unfolding run_board_flips by (simp only: if_True)
  then obtain new_board where
    nb: "play_move run_board (0, 0) True = Some (Inr new_board)"
      "\<And>x y. new_board x y = (if x = 0 \<and> y = 0 then WHITE
          else if x = 0 \<and> (y = 1 \<or> y = 2) then WHITE else run_board x y)"
    by blast
  have "run_board 0 0 = NOBODY" "run_board 0 1 = BLACK" "run_board 0 3 = WHITE"
    "run_board 0 4 = NOBODY" "run_board 1 0 = NOBODY" "run_board 1 1 = NOBODY"
    by (simp_all add: run_board_def)
  then show ?thesis
    by (intro exI[of _ new_board] conjI nb(1)) (simp_all add: nb(2))
qed

subsection \<open>C9: moves that are not legal\<close>

text \<open>
  Claim C9, as stated: \<open>play_move\<close> rejects with an error a move whose target cell is
  occupied or which is not a legal move of the side. It does not: \<open>play_move\<close> checks
  nothing. On the starting board cell (3,3) is occupied by Light and is no legal move of
  Dark, and \<open>play_move\<close> returns a board on which Dark has replaced the piece.
\<close>

theorem play_move_occupied_counterexample:
  "starting_board 3 3 = WHITE \<and>
   generate_legal_moves starting_board False = Some [(2, 3), (3, 2), (4, 5), (5, 4)] \<and>
   play_move starting_board (3, 3) False = Some (Inr (moved starting_board (3, 3) False)) \<and>
   moved starting_board (3, 3) False 3 3 = BLACK"
proof -
  have "generate_legal_moves starting_board False = Some [(2, 3), (3, 2), (4, 5), (5, 4)]"
    by code_simp
  moreover have "play_move starting_board (3, 3) False = Some (Inr (moved starting_board (3, 3) False))"
    by (simp add: play_move_eq on_board_def)
  moreover have "moved starting_board (3, 3) False 3 3 = BLACK"
    by (simp add: moved_char)
  ultimately show ?thesis by (simp add: starting_board_def Let_def)
qed

text \<open>
  Claim C9, amended: \<open>play_move\<close> does not check the move. For every board and side, a
  move to any cell of the board, occupied or not and legal or not, is applied: a board
  is returned, and on it the target cell holds the mover's side. A coordinate \<open>i\<close> from
  \<open>-8\<close> to \<open>-1\<close> is an index counted from the end of the array: a board is returned as
  well, and on it the cell with index \<open>i + 8\<close>, which is \<open>i mod 8\<close>, holds the mover's
  side. \<open>IndexError\<close> is raised exactly when a coordinate is outside the index range of
  the array, that is below \<open>-8\<close> or above \<open>7\<close>.
\<close>

theorem play_move_unchecked:
  "(on_board row col \<longrightarrow>
      (\<exists>new_board. play_move board (row, col) white_turn = Some (Inr new_board) \<and>
         new_board row col = (if white_turn then WHITE else BLACK))) \<and>
   (- NUM_COLS \<le> row \<and> row < NUM_COLS \<and> - NUM_COLS \<le> col \<and> col < NUM_COLS \<longrightarrow>
      (\<exists>new_board. play_move board (row, col) white_turn = Some (Inr new_board) \<and>
         new_board (row mod NUM_COLS) (col mod NUM_COLS) = (if white_turn then WHITE else BLACK))) \<and>
   (play_move board (row, col) white_turn = Some (Inl IndexError) \<longleftrightarrow>
      row < - NUM_COLS \<or> NUM_COLS \<le> row \<or> col < - NUM_COLS \<or> NUM_COLS \<le> col)"
proof (intro conjI impI)
  assume "on_board row col"
  then have "play_move board (row, col) white_turn = Some (Inr (moved board (row, col) white_turn))"
    by (simp add: play_move_eq)
  moreover have "moved board (row, col) white_turn row col = (if white_turn then WHITE else BLACK)"
    by (simp add: moved_char)
  ultimately show "\<exists>new_board. play_move board (row, col) white_turn = Some (Inr new_board) \<and>
         new_board row col = (if white_turn then WHITE else BLACK)"
    by blast
next
  assume range: "- NUM_COLS \<le> row \<and> row < NUM_COLS \<and> - NUM_COLS \<le> col \<and> col < NUM_COLS"
  let ?s = "if white_turn then WHITE else BLACK"
  let ?b = "board(row mod NUM_COLS := (board (row mod NUM_COLS))(col mod NUM_COLS := ?s))"
  have r: "np_index row = Inr (row mod NUM_COLS)" and c: "np_index col = Inr (col mod NUM_COLS)"
    using range by (simp_all add: np_index_mod)
  have "play_move board (row, col) white_turn =
        Some (Inr (capture_dirs ?b row col white_turn DIRECTIONS))"
    by (simp add: play_move_def setitem_def r c capture_def capture_loop_eq)
  moreover have "capture_dirs ?b row col white_turn DIRECTIONS (row mod NUM_COLS) (col mod NUM_COLS) = ?s"
    by (rule capture_dirs_keeps) simp
  ultimately show "\<exists>new_board. play_move board (row, col) white_turn = Some (Inr new_board) \<and>
         new_board (row mod NUM_COLS) (col mod NUM_COLS) = (if white_turn then WHITE else BLACK)"
    by blast
next
  show "play_move board (row, col) white_turn = Some (Inl IndexError) \<longleftrightarrow>
      row < - NUM_COLS \<or> NUM_COLS \<le> row \<or> col < - NUM_COLS \<or> NUM_COLS \<le> col"
    by (auto simp: play_move_def setitem_def np_index_def capture_def capture_loop_eq)
qed

text \<open>
  Instances: Dark on the occupied cell (3,3) of the starting board, the indices
  \<open>(-1, -8)\<close> counted from the end, which are the cell (7,0), and the indices 8 and -9
  outside the range.
\<close>

theorem play_move_unchecked_witness:
  "(\<exists>new_board. play_move starting_board (3, 3) False = Some (Inr new_board) \<and>
       new_board 3 3 = BLACK) \<and>
   (\<exists>new_board. play_move starting_board (- 1, - 8) True = Some (Inr new_board) \<and>
       new_board 7 0 = WHITE) \<and>
   play_move starting_board (8, 0) True = Some (Inl IndexError) \<and>
   play_move starting_board (0, - 9) False = Some (Inl IndexError)"
  using play_move_unchecked[of 3 3 starting_board False]
    play_move_unchecked[of "- 1" "- 8" starting_board True]
    play_move_unchecked[of 8 0 starting_board True]
    play_move_unchecked[of 0 "- 9" starting_board False]
  by (simp add: on_board_def)

subsection \<open>C10: the search terminates\<close>

text \<open>
  Claim C10. For every board, either side to move, every remaining depth \<open>d \<ge> 0\<close> and
  every \<open>alpha\<close> and \<open>beta\<close>, \<open>minimax_value\<close> terminates (and returns a score, raising
  nothing). A forced pass recurses at the same depth, but a second pass in a row is
  impossible: where the game is not over and the side to move has no legal move, the
  other side has one.
\<close>

theorem minimax_value_terminates:
  assumes "0 \<le> search_depth"
  shows "(\<exists>v. minimax_value board white_turn search_depth alpha beta = Some (Inr v)) \<and>
         (check_game_over board = Some NOBODY \<and> generate_legal_moves board white_turn = Some [] \<longrightarrow>
            generate_legal_moves board (\<not> white_turn) \<noteq> Some [])"
proof
  from node_ok_all[of "nat search_depth"] assms
  show "\<exists>v. minimax_value board white_turn search_depth alpha beta = Some (Inr v)"
    unfolding node_ok_def minimax_value_def by (metis int_nat_eq)
  have "find_winner board \<noteq> NOBODY" using find_winner_cases[of board] by auto
  then show "check_game_over board = Some NOBODY \<and> generate_legal_moves board white_turn = Some [] \<longrightarrow>
            generate_legal_moves board (\<not> white_turn) \<noteq> Some []"
    by (cases white_turn) (auto simp: check_game_over_eq generate_legal_moves_eq outcome_cases)
qed

theorem minimax_value_terminates_witness:
  "\<exists>v. minimax_value starting_board False 7 (Fin 3) (Fin (- 2)) = Some (Inr v)"
  using minimax_value_terminates[of 7 starting_board False "Fin 3" "Fin (- 2)"] by simp

subsection \<open>C1: pruning does not change the value\<close>

text \<open>
  Claim C1. For every board, every side to move and every remaining depth \<open>d \<ge> 0\<close>,
  \<open>minimax_value\<close> called with the fully open window (\<open>alpha\<close> minus infinity, \<open>beta\<close> plus
  infinity) returns the value of the exhaustive depth-limited minimax \<open>exhaustive_minimax\<close>
  (same heuristic, same terminal scores, same pass rule, no pruning).
\<close>

theorem alpha_beta_sound:
  assumes "0 \<le> search_depth"
  shows "minimax_value board white_turn search_depth MInf PInf =
         Some (Inr (exhaustive_minimax board white_turn (nat search_depth)))"
proof -
  have open_window: "MInf < PInf" by (simp add: less_ext_def)
  from node_ok_all[of "nat search_depth"] obtain r where
    r: "search (Minimax_value board white_turn (int (nat search_depth)) MInf PInf) = Some (Inr r)"
      "sound MInf PInf r (exhaustive_minimax board white_turn (nat search_depth))"
    unfolding node_ok_def using open_window by blast
  from r(2) have "r = exhaustive_minimax board white_turn (nat search_depth)"
    by (simp add: sound_def)
  with r(1) assms show ?thesis by (simp add: minimax_value_def)
qed

text \<open>
  Two instances: the starting board at depth 1, and the row \<open>- - - - B W B -\<close> at depth 3.
\<close>

theorem alpha_beta_sound_witness:
  "minimax_value starting_board True 1 MInf PInf = Some (Inr 3) \<and>
   exhaustive_minimax starting_board True (nat 1) = 3 \<and>
   minimax_value trap_board True 3 MInf PInf = Some (Inr 100) \<and>
   exhaustive_minimax trap_board True (nat 3) = 100"
proof -
  have a: "minimax_value starting_board True 1 MInf PInf = Some (Inr 3)" by code_simp
  have b: "minimax_value trap_board True 3 MInf PInf = Some (Inr 100)" by code_simp
  show ?thesis
    using alpha_beta_sound[of 1 starting_board True] alpha_beta_sound[of 3 trap_board True]
    by (simp add: a b)
qed

subsection \<open>C4: a forced pass does not consume depth\<close>

text \<open>
  Claim C4. For every board on which the side to move has no legal move but the other
  side has at least one (Light passing, or symmetrically Dark passing), every remaining
  depth \<open>d \<ge> 1\<close> and every \<open>alpha\<close> and \<open>beta\<close>, \<open>minimax_value\<close> for the side that must pass
  is \<open>minimax_value\<close> for the other side on the same board at the same depth \<open>d\<close>, and
  that call returns a score.
\<close>

theorem forced_pass_same_depth:
  assumes "generate_legal_moves board white_turn = Some []"
    and "generate_legal_moves board (\<not> white_turn) = Some (m # ms)"
    and "1 \<le> search_depth"
  shows "minimax_value board white_turn search_depth alpha beta =
           minimax_value board (\<not> white_turn) search_depth alpha beta \<and>
         (\<exists>v. minimax_value board (\<not> white_turn) search_depth alpha beta = Some (Inr v))"
proof
  from assms(1,2) have "legal_moves board white_turn = []" "legal_moves board (\<not> white_turn) \<noteq> []"
    by (simp_all add: generate_legal_moves_eq)
  moreover from assms(3) have "search_depth \<noteq> 0" by simp
  ultimately show "minimax_value board white_turn search_depth alpha beta =
           minimax_value board (\<not> white_turn) search_depth alpha beta"
    unfolding minimax_value_def by (intro search_pass)
  from node_ok_all[of "nat search_depth"] assms(3)
  show "\<exists>v. minimax_value board (\<not> white_turn) search_depth alpha beta = Some (Inr v)"
    unfolding node_ok_def minimax_value_def by (metis int_nat_eq order_trans zero_le_one)
qed

text \<open>
  An instance: row 0 reads \<open>B W\<close> from column 0, so Light cannot move and Dark can play
  (0,2). At depth 1 Light's value is Dark's value at depth 1, which is -3; Dark's value
  at depth 0 is the static evaluation 0.
\<close>

theorem forced_pass_same_depth_witness:
  "minimax_value pass_board True 1 MInf PInf = Some (Inr (- 3)) \<and>
   minimax_value pass_board False 1 MInf PInf = Some (Inr (- 3)) \<and>
   minimax_value pass_board False 0 MInf PInf = Some (Inr 0)"
proof -
  have a: "generate_legal_moves pass_board True = Some []" by code_simp
  have b: "generate_legal_moves pass_board (\<not> True) = Some ((0, 2) # [])" by code_simp
  have c: "minimax_value pass_board False 1 MInf PInf = Some (Inr (- 3))" by code_simp
  have d: "minimax_value pass_board False 0 MInf PInf = Some (Inr 0)" by code_simp
  show ?thesis
    using forced_pass_same_depth[OF a b, of 1 MInf PInf] by (simp add: c d)
qed

subsection \<open>C5: the score of a finished game\<close>

text \<open>
  Claim C5. For every board on which neither side has a legal move, every remaining
  depth \<open>d \<ge> 1\<close>, either side to move and every \<open>alpha\<close> and \<open>beta\<close>, \<open>minimax_value\<close>
  returns \<open>WIN_VAL\<close> if Light has strictly more pieces, \<open>- WIN_VAL\<close> if Dark has strictly
  more, and 0 if the counts are equal; and \<open>WIN_VAL\<close> exceeds in absolute value every
  value of the static evaluation on any board.
\<close>

theorem terminal_scoring:
  assumes "generate_legal_moves board True = Some []"
    and "generate_legal_moves board False = Some []"
    and "1 \<le> search_depth"
  shows "minimax_value board white_turn search_depth alpha beta =
           Some (Inr (if count_nonzero_eq board WHITE > count_nonzero_eq board BLACK then WIN_VAL
                      else if count_nonzero_eq board WHITE < count_nonzero_eq board BLACK then - WIN_VAL
                      else 0)) \<and>
         (\<forall>b. - WIN_VAL < evaluation_function b \<and> evaluation_function b < WIN_VAL)"
proof
  from assms have "legal_moves board True = []" "legal_moves board False = []" "search_depth \<noteq> 0"
    by (simp_all add: generate_legal_moves_eq)
  then show "minimax_value board white_turn search_depth alpha beta =
           Some (Inr (if count_nonzero_eq board WHITE > count_nonzero_eq board BLACK then WIN_VAL
                      else if count_nonzero_eq board WHITE < count_nonzero_eq board BLACK then - WIN_VAL
                      else 0))"
    by (simp add: minimax_value_def search_over find_winner_def Let_def)
  show "\<forall>b. - WIN_VAL < evaluation_function b \<and> evaluation_function b < WIN_VAL"
  proof
    fix b
    from evaluation_function_bounds[of b]
    show "- WIN_VAL < evaluation_function b \<and> evaluation_function b < WIN_VAL" by simp
  qed
qed

text \<open>
  Instances: a single Light piece (Light wins), a single Dark piece (Dark wins), the
  empty board (tie).
\<close>

theorem terminal_scoring_witness:
  "minimax_value (lone_piece WHITE) False 4 MInf PInf = Some (Inr WIN_VAL) \<and>
   minimax_value (lone_piece BLACK) True 1 (Fin 5) (Fin 7) = Some (Inr (- WIN_VAL)) \<and>
   minimax_value empty_board True 2 MInf PInf = Some (Inr 0)"
proof -
  have w: "generate_legal_moves (lone_piece WHITE) True = Some []"
    "generate_legal_moves (lone_piece WHITE) False = Some []"
    "count_nonzero_eq (lone_piece WHITE) WHITE = 1" "count_nonzero_eq (lone_piece WHITE) BLACK = 0"
    by code_simp+
  have b: "generate_legal_moves (lone_piece BLACK) True = Some []"
    "generate_legal_moves (lone_piece BLACK) False = Some []"
    "count_nonzero_eq (lone_piece BLACK) WHITE = 0" "count_nonzero_eq (lone_piece BLACK) BLACK = 1"
    by code_simp+
  have e: "generate_legal_moves empty_board True = Some []"
    "generate_legal_moves empty_board False = Some []"
    "count_nonzero_eq empty_board WHITE = 0" "count_nonzero_eq empty_board BLACK = 0"
    by code_simp+
  show ?thesis
    using terminal_scoring[OF w(1,2), of 4 False MInf PInf]
      terminal_scoring[OF b(1,2), of 1 True "Fin 5" "Fin 7"]
      terminal_scoring[OF e(1,2), of 2 True MInf PInf]
    by (simp add: w b e)
qed

subsection \<open>C7: the move selection at the root\<close>

text \<open>
  Claim C7. At the root the search evaluates each legal move of Light by applying it and
  recursing into the opponent's turn with a fresh open window, and keeps the first move
  of strictly greatest value. The source does reset the window and does keep the first
  strictly better move, but it evaluates the board after Light's move with
  \<open>white_turn = True\<close>, that is with Light to move again, although \<open>minimax_value\<close>
  documents \<open>white_turn\<close> as "True iff white would get to play next" and
  \<open>find_max_score\<close> recurses with \<open>False\<close> after a move of Light.

  The difference shows in a game of \<open>play\<close>. On the starting board the source selects
  (2,4); Dark answers (2,3), a legal move; the source selects (1,2); Dark answers (1,3),
  a legal move. On the board that is reached, \<open>opening_4\<close>, the game is not over and
  Light has the legal moves (0,2), (1,4), (2,2), (3,2), (4,2), (5,2). The source values
  the first of them, (0,2), at 100, because Light moving again would take the last Dark
  pieces with (5,3), and selects it. With Dark to move the board after (0,2) is worth -2
  and the board after (4,2) is worth 0, and the selection in the words of the
  specification, \<open>claimed_best_move\<close>, is (4,2).
\<close>

theorem root_selection_evaluates_same_side:
  "play_best_move starting_board = Some (Inr (Some (2, 4))) \<and>
   play_move starting_board (2, 4) True = Some (Inr opening_1) \<and>
   generate_legal_moves opening_1 False = Some [(2, 3), (2, 5), (4, 5)] \<and>
   play_move opening_1 (2, 3) False = Some (Inr opening_2) \<and>
   play_best_move opening_2 = Some (Inr (Some (1, 2))) \<and>
   play_move opening_2 (1, 2) True = Some (Inr opening_3) \<and>
   generate_legal_moves opening_3 False = Some [(1, 3), (1, 5), (2, 5), (3, 5), (4, 5), (5, 5)] \<and>
   play_move opening_3 (1, 3) False = Some (Inr opening_4) \<and>
   map (\<lambda>row. map (opening_4 row) [0..7]) [0..7] =
     [[0, 0, 0, 0, 0, 0, 0, 0],
      [0, 0, 1, - 1, 0, 0, 0, 0],
      [0, 0, 0, - 1, 1, 0, 0, 0],
      [0, 0, 0, - 1, 1, 0, 0, 0],
      [0, 0, 0, - 1, 1, 0, 0, 0],
      [0, 0, 0, 0, 0, 0, 0, 0],
      [0, 0, 0, 0, 0, 0, 0, 0],
      [0, 0, 0, 0, 0, 0, 0, 0]] \<and>
   check_game_over opening_4 = Some NOBODY \<and>
   generate_legal_moves opening_4 True = Some [(0, 2), (1, 4), (2, 2), (3, 2), (4, 2), (5, 2)] \<and>
   play_best_move opening_4 = Some (Inr (Some (0, 2))) \<and>
   claimed_best_move opening_4 = Some (Inr (Some (4, 2))) \<and>
   play_move opening_4 (0, 2) True = Some (Inr (moved opening_4 (0, 2) True)) \<and>
   play_move opening_4 (4, 2) True = Some (Inr (moved opening_4 (4, 2) True)) \<and>
   minimax_value (moved opening_4 (0, 2) True) True DEMO_SEARCH_DEPTH MInf PInf = Some (Inr WIN_VAL) \<and>
   minimax_value (moved opening_4 (0, 2) True) False DEMO_SEARCH_DEPTH MInf PInf = Some (Inr (- 2)) \<and>
   minimax_value (moved opening_4 (4, 2) True) False DEMO_SEARCH_DEPTH MInf PInf = Some (Inr 0)"
proof -
  have l0: "legal_moves starting_board True = [(2, 4), (3, 5), (4, 2), (5, 3)]"
    using starting_board_light by (simp add: generate_legal_moves_eq)
  have l2: "legal_moves opening_2 True = [(1, 2), (2, 2), (3, 2), (4, 2), (5, 2)]"
    using opening_2_light by (simp add: generate_legal_moves_eq)
  have l4: "legal_moves opening_4 True = [(0, 2), (1, 4), (2, 2), (3, 2)] @ (4, 2) # [(5, 2)]"
    using opening_4_light by (simp add: generate_legal_moves_eq)
  have w1: "WIN_VAL \<le> exhaustive_minimax (moved starting_board (2, 4) True) True 5"
    using holds_sound(1)[OF opening_1_win] by (simp add: within_def)
  have w3: "WIN_VAL \<le> exhaustive_minimax (moved opening_2 (1, 2) True) True 5"
    using holds_sound(1)[OF opening_3_win] by (simp add: within_def)
  have w5: "WIN_VAL \<le> exhaustive_minimax (moved opening_4 (0, 2) True) True 5"
    using holds_sound(1)[OF opening_5_win] by (simp add: within_def)
  have v02: "exhaustive_minimax (moved opening_4 (0, 2) True) False 5 = - 2"
    using holds_sound(1)[OF dark_after_0_2_holds] holds_sound(1)[OF light_after_0_2_holds]
    by (simp add: within_def)
  have v14: "exhaustive_minimax (moved opening_4 (1, 4) True) False 5 \<le> - 1"
    using holds_sound(1)[OF dark_after_1_4_holds] by (simp add: within_def)
  have v22: "exhaustive_minimax (moved opening_4 (2, 2) True) False 5 \<le> - 1"
    using holds_sound(1)[OF dark_after_2_2_holds] by (simp add: within_def)
  have v32: "exhaustive_minimax (moved opening_4 (3, 2) True) False 5 \<le> - 1"
    using holds_sound(1)[OF dark_after_3_2_holds] by (simp add: within_def)
  have v42: "exhaustive_minimax (moved opening_4 (4, 2) True) False 5 = 0"
    using holds_sound(1)[OF dark_after_4_2_holds] holds_sound(1)[OF light_after_4_2_holds]
    by (simp add: within_def)
  have v52: "exhaustive_minimax (moved opening_4 (5, 2) True) False 5 \<le> 0"
    using holds_sound(1)[OF dark_after_5_2_holds] by (simp add: within_def)
  have a: "play_best_move starting_board = Some (Inr (Some (2, 4)))"
    using l0 w1 by (rule play_best_move_first)
  have b: "play_best_move opening_2 = Some (Inr (Some (1, 2)))"
    using l2 w3 by (rule play_best_move_first)
  have c: "play_best_move opening_4 = Some (Inr (Some (0, 2)))"
    using l4 w5 by (intro play_best_move_first[of _ _ "[(1, 4), (2, 2), (3, 2), (4, 2), (5, 2)]"]) simp_all
  have d: "claimed_best_move opening_4 = Some (Inr (Some (4, 2)))"
    using v14 v22 v32 v52 by (intro claimed_best_move_first_max[OF l4]) (simp_all add: v02 v42)
  have e: "play_move starting_board (2, 4) True = Some (Inr opening_1)"
    "play_move opening_1 (2, 3) False = Some (Inr opening_2)"
    "play_move opening_2 (1, 2) True = Some (Inr opening_3)"
    "play_move opening_3 (1, 3) False = Some (Inr opening_4)"
    "play_move opening_4 (0, 2) True = Some (Inr (moved opening_4 (0, 2) True))"
    "play_move opening_4 (4, 2) True = Some (Inr (moved opening_4 (4, 2) True))"
    by (simp_all add: play_move_eq on_board_def opening_1_def opening_2_def opening_3_def
        opening_4_def)
  have f: "check_game_over opening_4 = Some NOBODY"
    using l4 by (simp add: check_game_over_eq outcome_def)
  have g: "minimax_value (moved opening_4 (0, 2) True) True DEMO_SEARCH_DEPTH MInf PInf = Some (Inr WIN_VAL)"
    using w5 exhaustive_minimax_bounds[of "moved opening_4 (0, 2) True" True 5]
    by (simp add: minimax_value_demo)
  have h: "minimax_value (moved opening_4 (0, 2) True) False DEMO_SEARCH_DEPTH MInf PInf = Some (Inr (- 2))"
    "minimax_value (moved opening_4 (4, 2) True) False DEMO_SEARCH_DEPTH MInf PInf = Some (Inr 0)"
    by (simp_all add: minimax_value_demo v02 v42)
  show ?thesis
    by (intro conjI a b c d e f g h opening_1_dark opening_3_dark opening_4_light opening_4_rows)
qed

end
